theory Spec2Isabelle
  imports Main "HOL-Library.Sublist"
begin

section \<open>Strings as the generator uses them\<close>

text \<open>
  The generator (\<^verbatim>\<open>generate_presentation.py\<close>) is string processing throughout.
  A Python \<^verbatim>\<open>str\<close> is modelled as a \<^typ>\<open>string\<close>; the character classes below
  are the ASCII part of Python's classes, so the model is exact on ASCII text.
  Cell indices are Python integers, modelled as \<^typ>\<open>int\<close>.
\<close>

definition bs :: char where
  "bs = CHR 0x5C"

definition nl :: char where
  "nl = CHR 0x0A"

text \<open>\<^verbatim>\<open>str.isspace\<close> on ASCII: tab, LF, VT, FF, CR, the four separators FS..US, and space.
  Both \<^verbatim>\<open>str.strip()\<close> and the regex class \<^verbatim>\<open>\s\<close> use it.\<close>

definition is_space :: "char \<Rightarrow> bool" where
  "is_space c = (c \<in> set [CHR 0x09, CHR 0x0A, CHR 0x0B, CHR 0x0C, CHR 0x0D,
                            CHR 0x1C, CHR 0x1D, CHR 0x1E, CHR 0x1F, CHR 0x20])"

definition is_upper :: "char \<Rightarrow> bool" where
  "is_upper c = (let n = (of_char c :: nat) in 65 \<le> n \<and> n \<le> 90)"

definition is_lower :: "char \<Rightarrow> bool" where
  "is_lower c = (let n = (of_char c :: nat) in 97 \<le> n \<and> n \<le> 122)"

definition is_alpha :: "char \<Rightarrow> bool" where
  "is_alpha c = (is_upper c \<or> is_lower c)"

definition lower_char :: "char \<Rightarrow> char" where
  "lower_char c = (if is_upper c then char_of ((of_char c :: nat) + 32) else c)"

definition upper_char :: "char \<Rightarrow> char" where
  "upper_char c = (if is_lower c then char_of ((of_char c :: nat) - 32) else c)"

text \<open>\<^verbatim>\<open>s.lower()\<close>\<close>

definition lower :: "string \<Rightarrow> string" where
  "lower s = map lower_char s"

text \<open>\<^verbatim>\<open>s.title()\<close>: a letter is upper-cased when the character before it is not a
  letter, and lower-cased otherwise.\<close>

fun title_from :: "bool \<Rightarrow> string \<Rightarrow> string" where
  "title_from prev_cased [] = []"
| "title_from prev_cased (c # cs) =
     (if is_alpha c
      then (if prev_cased then lower_char c else upper_char c) # title_from True cs
      else c # title_from False cs)"

definition title_case :: "string \<Rightarrow> string" where
  "title_case s = title_from False s"

text \<open>\<^verbatim>\<open>s.strip()\<close>, \<^verbatim>\<open>s.lstrip(chars)\<close>, \<^verbatim>\<open>s.startswith(p)\<close>\<close>

definition lstrip_ws :: "string \<Rightarrow> string" where
  "lstrip_ws s = dropWhile is_space s"

definition strip :: "string \<Rightarrow> string" where
  "strip s = rev (dropWhile is_space (rev (dropWhile is_space s)))"

definition lstrip :: "string \<Rightarrow> string \<Rightarrow> string" where
  "lstrip chars s = dropWhile (\<lambda>c. c \<in> set chars) s"

fun startswith :: "string \<Rightarrow> string \<Rightarrow> bool" where
  "startswith [] s = True"
| "startswith (p # ps) [] = False"
| "startswith (p # ps) (c # cs) = (p = c \<and> startswith ps cs)"

text \<open>\<^verbatim>\<open>s.split('\n')\<close> (always at least one piece) and \<^verbatim>\<open>'\n'.join(xs)\<close>\<close>

fun split_on :: "char \<Rightarrow> string \<Rightarrow> string list" where
  "split_on d [] = [[]]"
| "split_on d (c # cs) =
     (if c = d then [] # split_on d cs
      else (case split_on d cs of
              [] \<Rightarrow> [[c]]
            | l # ls \<Rightarrow> (c # l) # ls))"

fun join :: "string \<Rightarrow> string list \<Rightarrow> string" where
  "join d [] = []"
| "join d [x] = x"
| "join d (x # y # ys) = x @ d @ join d (y # ys)"

text \<open>\<^verbatim>\<open>s.replace(old, new)\<close>: occurrences are replaced left to right without overlap;
  an empty \<^verbatim>\<open>old\<close> puts \<^verbatim>\<open>new\<close> before every character and at the end.\<close>

function replace :: "string \<Rightarrow> string \<Rightarrow> string \<Rightarrow> string" where
  "replace old new s =
     (if old = [] then new @ concat (map (\<lambda>c. c # new) s)
      else if s = [] then []
      else if startswith old s then new @ replace old new (drop (length old) s)
      else hd s # replace old new (tl s))"
  by pat_completeness auto
termination
  by (relation "measure (\<lambda>(old, new, s). length s)") auto

declare replace.simps [simp del]

text \<open>\<^verbatim>\<open>s.count(c)\<close> for a single character\<close>

definition count_char :: "char \<Rightarrow> string \<Rightarrow> nat" where
  "count_char c s = length (filter (\<lambda>x. x = c) s)"

subsection \<open>Formatting integers\<close>

definition digit_char :: "nat \<Rightarrow> char" where
  "digit_char d = ''0123456789'' ! (d mod 10)"

fun str_nat :: "nat \<Rightarrow> string" where
  "str_nat n = (if n < 10 then [digit_char n] else str_nat (n div 10) @ [digit_char (n mod 10)])"

declare str_nat.simps [simp del]

text \<open>\<^verbatim>\<open>f"{i}"\<close>\<close>

definition str_int :: "int \<Rightarrow> string" where
  "str_int i = (if i < 0 then CHR ''-'' # str_nat (nat (- i)) else str_nat (nat i))"

definition zero_pad :: "nat \<Rightarrow> string \<Rightarrow> string" where
  "zero_pad w s = replicate (w - length s) CHR ''0'' @ s"

text \<open>\<^verbatim>\<open>f"{i:03d}"\<close>: the sign counts towards the width of three.\<close>

definition fmt_03d :: "int \<Rightarrow> string" where
  "fmt_03d i = (if i < 0 then CHR ''-'' # zero_pad 2 (str_nat (nat (- i)))
                else zero_pad 3 (str_nat (nat i)))"

section \<open>Cells and images\<close>

text \<open>A markdown or code cell as \<^verbatim>\<open>extract_markdown_cells\<close> and \<^verbatim>\<open>extract_code_cells\<close>
  build it, and an image record as \<^verbatim>\<open>extract_images_from_notebook\<close> builds it (the
  fields that \<^verbatim>\<open>generate_beamer_with_content\<close> reads).\<close>

record cell =
  cell_index :: int
  content :: string

record image =
  filename :: string
  image_cell_index :: int
  plot_type :: "string option"

text \<open>\<^verbatim>\<open>infer_plot_type\<close> returns \<^verbatim>\<open>None\<close> whatever it is given.\<close>

definition infer_plot_type :: "string \<Rightarrow> nat \<Rightarrow> string option" where
  "infer_plot_type cell_source counter = None"

section \<open>Code frames\<close>

text \<open>The three texts that the code-cell branch of \<^verbatim>\<open>generate_beamer_with_content\<close>
  appends (lines 666 to 705), written line by line.\<close>

definition large_code_frame :: "int \<Rightarrow> nat \<Rightarrow> string" where
  "large_code_frame cell_idx num_lines = concat
    [[nl],
     bs # ''begin{frame}{Code: Cell '' @ str_int cell_idx @ '' (Large File - ''
        @ str_nat num_lines @ '' lines)}'' @ [nl],
     ''    '' @ bs # ''textbf{Note:} This code cell is very large and has been excluded from the presentation.'' @ [nl],
     [nl],
     ''    '' @ bs # ''vspace{1em}'' @ [nl],
     [nl],
     ''    The complete code is available in: '' @ bs # ''texttt{code/cell_''
        @ fmt_03d cell_idx @ ''.py}'' @ [nl],
     [nl],
     ''    '' @ bs # ''vspace{1em}'' @ [nl],
     [nl],
     ''    '' @ bs # ''begin{block}{Summary}'' @ [nl],
     ''    This cell contains substantial implementation code that is better reviewed'' @ [nl],
     ''    in the source file rather than displayed in presentation slides.'' @ [nl],
     ''    '' @ bs # ''end{block}'' @ [nl],
     bs # ''end{frame}'' @ [nl],
     [nl]]"

definition code_figure :: "int \<Rightarrow> string" where
  "code_figure cell_idx = concat
    [''    '' @ bs # ''begin{figure}'' @ [nl],
     ''        '' @ bs # ''CODE{cell_'' @ fmt_03d cell_idx @ ''.py}'' @ [nl],
     ''        '' @ bs # ''caption{Code from Cell '' @ str_int cell_idx @ ''}'' @ [nl],
     ''    '' @ bs # ''end{figure}'' @ [nl],
     bs # ''end{frame}'' @ [nl],
     [nl]]"

definition breaks_code_frame :: "int \<Rightarrow> string" where
  "breaks_code_frame cell_idx =
     [nl] @ bs # ''begin{frame}[fragile,allowframebreaks]{Code: Cell '' @ str_int cell_idx
       @ ''}'' @ [nl] @ code_figure cell_idx"

definition plain_code_frame :: "int \<Rightarrow> string" where
  "plain_code_frame cell_idx =
     [nl] @ bs # ''begin{frame}[fragile]{Code: Cell '' @ str_int cell_idx
       @ ''}'' @ [nl] @ code_figure cell_idx"

text \<open>\<^verbatim>\<open>num_lines = code_cell['content'].count('\n') + 1\<close>\<close>

definition num_lines :: "string \<Rightarrow> nat" where
  "num_lines code = count_char nl code + 1"

definition code_frame :: "int \<Rightarrow> string \<Rightarrow> string" where
  "code_frame cell_idx code =
     (if num_lines code > 200 then large_code_frame cell_idx (num_lines code)
      else if num_lines code > 50 then breaks_code_frame cell_idx
      else plain_code_frame cell_idx)"

section \<open>Regular expressions\<close>

text \<open>
  The patterns of the generator are sequences of single characters and character classes,
  each possibly under \<^verbatim>\<open>?\<close>, \<^verbatim>\<open>+\<close> or \<^verbatim>\<open>*?\<close>, with the anchors \<^verbatim>\<open>^\<close> and \<^verbatim>\<open>$\<close>
  (always under \<^verbatim>\<open>re.MULTILINE\<close>) and capture groups that are neither nested nor repeated.
  A pattern is a list of such items; \<open>rmatch\<close> is the backtracking matcher of Python's
  \<^verbatim>\<open>re\<close> on this fragment: a greedy item tries the longer match first, a lazy one the
  shorter, and the first success is the match.
\<close>

datatype item =
    One "char \<Rightarrow> bool"
  | OptC "char \<Rightarrow> bool"
  | PlusC "char \<Rightarrow> bool"
  | StarG "char \<Rightarrow> bool"
  | StarL "char \<Rightarrow> bool"
  | Bol
  | Eol
  | Open
  | Close

fun push :: "char \<Rightarrow> string option \<Rightarrow> string option" where
  "push c None = None"
| "push c (Some a) = Some (c # a)"

text \<open>
  \<open>rmatch items prev s grp gs\<close> matches \<open>items\<close> at the front of \<open>s\<close>, where \<open>prev\<close> is the
  character before \<open>s\<close> (\<open>None\<close> at the start of the text), \<open>grp\<close> the reversed text of
  the group that is open, and \<open>gs\<close> the closed groups, last first. A match gives the groups,
  the last character before the rest, and the rest of the text.
\<close>

fun rmatch :: "item list \<Rightarrow> char option \<Rightarrow> string \<Rightarrow> string option \<Rightarrow> string list
    \<Rightarrow> (string list \<times> char option \<times> string) option" where
  "rmatch [] p s g gs = Some (rev gs, p, s)"
| "rmatch (Open # r) p s g gs = rmatch r p s (Some []) gs"
| "rmatch (Close # r) p s g gs =
     rmatch r p s None ((case g of None \<Rightarrow> [] | Some a \<Rightarrow> rev a) # gs)"
| "rmatch (Bol # r) p s g gs =
     (if p = None \<or> p = Some nl then rmatch r p s g gs else None)"
| "rmatch (Eol # r) p s g gs =
     (if s = [] \<or> hd s = nl then rmatch r p s g gs else None)"
| "rmatch (One P # r) p [] g gs = None"
| "rmatch (One P # r) p (c # cs) g gs =
     (if P c then rmatch r (Some c) cs (push c g) gs else None)"
| "rmatch (OptC P # r) p [] g gs = rmatch r p [] g gs"
| "rmatch (OptC P # r) p (c # cs) g gs =
     (if P c
      then (case rmatch r (Some c) cs (push c g) gs of
              Some m \<Rightarrow> Some m
            | None \<Rightarrow> rmatch r p (c # cs) g gs)
      else rmatch r p (c # cs) g gs)"
| "rmatch (PlusC P # r) p [] g gs = None"
| "rmatch (PlusC P # r) p (c # cs) g gs =
     (if P c then rmatch (StarG P # r) (Some c) cs (push c g) gs else None)"
| "rmatch (StarG P # r) p [] g gs = rmatch r p [] g gs"
| "rmatch (StarG P # r) p (c # cs) g gs =
     (if P c
      then (case rmatch (StarG P # r) (Some c) cs (push c g) gs of
              Some m \<Rightarrow> Some m
            | None \<Rightarrow> rmatch r p (c # cs) g gs)
      else rmatch r p (c # cs) g gs)"
| "rmatch (StarL P # r) p [] g gs = rmatch r p [] g gs"
| "rmatch (StarL P # r) p (c # cs) g gs =
     (case rmatch r p (c # cs) g gs of
        Some m \<Rightarrow> Some m
      | None \<Rightarrow> (if P c then rmatch (StarL P # r) (Some c) cs (push c g) gs else None))"

text \<open>\<^verbatim>\<open>re.search(pattern, text)\<close>: the match at the leftmost position that has one;
  the result is its groups.\<close>

fun search_from :: "item list \<Rightarrow> char option \<Rightarrow> string \<Rightarrow> string list option" where
  "search_from pat p [] = map_option fst (rmatch pat p [] None [])"
| "search_from pat p (c # cs) =
     (case rmatch pat p (c # cs) None [] of
        Some m \<Rightarrow> Some (fst m)
      | None \<Rightarrow> search_from pat (Some c) cs)"

definition re_search :: "item list \<Rightarrow> string \<Rightarrow> string list option" where
  "re_search pat s = search_from pat None s"

text \<open>A replacement template such as \<^verbatim>\<open>r'<<<H5>>>\1<<<ENDH5>>>'\<close>: literal text and
  group references.\<close>

datatype part = T string | G nat

fun group :: "string list \<Rightarrow> nat \<Rightarrow> string" where
  "group gs n = (if 0 < n \<and> n \<le> length gs then gs ! (n - 1) else [])"

fun expand_part :: "string list \<Rightarrow> part \<Rightarrow> string" where
  "expand_part gs (T s) = s"
| "expand_part gs (G n) = group gs n"

definition expand :: "part list \<Rightarrow> string list \<Rightarrow> string" where
  "expand tmpl gs = concat (map (expand_part gs) tmpl)"

text \<open>
  \<^verbatim>\<open>re.sub(pattern, repl, text)\<close>: scanning from the left, a match is replaced by the
  expanded template and the scan goes on behind it; where there is no match the
  character is copied. Every pattern of the generator consumes at least one character;
  an empty match would be replaced and the scan would move on by one character.
\<close>

function sub_from :: "item list \<Rightarrow> part list \<Rightarrow> char option \<Rightarrow> string \<Rightarrow> string" where
  "sub_from pat tmpl p s =
     (case rmatch pat p s None [] of
        Some (gs, p', rest) \<Rightarrow>
          (if length rest < length s then expand tmpl gs @ sub_from pat tmpl p' rest
           else expand tmpl gs @
             (case s of [] \<Rightarrow> [] | c # cs \<Rightarrow> c # sub_from pat tmpl (Some c) cs))
      | None \<Rightarrow> (case s of [] \<Rightarrow> [] | c # cs \<Rightarrow> c # sub_from pat tmpl (Some c) cs))"
  by pat_completeness auto
termination
  by (relation "measure (\<lambda>(pat, tmpl, p, s). length s)") auto

declare sub_from.simps [simp del]

definition re_sub :: "item list \<Rightarrow> part list \<Rightarrow> string \<Rightarrow> string" where
  "re_sub pat tmpl s = sub_from pat tmpl None s"

text \<open>The items of the patterns: a literal character, \<^verbatim>\<open>\s\<close>, \<^verbatim>\<open>.\<close> (anything but a
  newline), and a literal string.\<close>

definition lit :: "char \<Rightarrow> item" where
  "lit c = One (\<lambda>x. x = c)"

definition lits :: "string \<Rightarrow> item list" where
  "lits s = map lit s"

definition dot :: "char \<Rightarrow> bool" where
  "dot c = (c \<noteq> nl)"

section \<open>The text-markup translator: \<^verbatim>\<open>markdown_to_latex\<close>\<close>

text \<open>Lines 320 and 321: \<^verbatim>\<open>^#####\s+(.*?)$\<close> and \<^verbatim>\<open>^####\s+(.*?)$\<close>.\<close>

definition header_pat :: "string \<Rightarrow> item list" where
  "header_pat hashes = [Bol] @ lits hashes @ [PlusC is_space, Open, StarL dot, Close, Eol]"

definition convert_h5_h4 :: "string \<Rightarrow> string" where
  "convert_h5_h4 text =
     re_sub (header_pat ''####'') [T ''<<<H4>>>'', G 1, T ''<<<ENDH4>>>'']
       (re_sub (header_pat ''#####'') [T ''<<<H5>>>'', G 1, T ''<<<ENDH5>>>''] text)"

text \<open>Lines 324 to 327: \<^verbatim>\<open>\*\*(.*?)\*\*\<close>, \<^verbatim>\<open>\*(.*?)\*\<close>, the same between backquotes,
  and \<^verbatim>\<open>\[(.*?)\]\((.*?)\)\<close>.\<close>

definition bold_pat :: "item list" where
  "bold_pat = lits ''**'' @ [Open, StarL dot, Close] @ lits ''**''"

definition italic_pat :: "item list" where
  "italic_pat = lits ''*'' @ [Open, StarL dot, Close] @ lits ''*''"

definition code_pat :: "item list" where
  "code_pat = lits ''`'' @ [Open, StarL dot, Close] @ lits ''`''"

definition link_pat :: "item list" where
  "link_pat = lits ''['' @ [Open, StarL dot, Close] @ lits ''](''
                @ [Open, StarL dot, Close] @ lits '')''"

definition convert_spans :: "string \<Rightarrow> string" where
  "convert_spans text =
     re_sub link_pat [T ''<<<LINK>>>'', G 2, T ''<<<LINKTEXT>>>'', G 1, T ''<<<ENDLINK>>>'']
       (re_sub code_pat [T ''<<<CODE>>>'', G 1, T ''<<<ENDCODE>>>'']
         (re_sub italic_pat [T ''<<<ITALIC>>>'', G 1, T ''<<<ENDITALIC>>>'']
           (re_sub bold_pat [T ''<<<BOLD>>>'', G 1, T ''<<<ENDBOLD>>>''] text)))"

text \<open>Lines 330 to 341: the dictionary \<^verbatim>\<open>replacements\<close> in its insertion order, applied
  one entry after the other.\<close>

definition replacements :: "(string \<times> string) list" where
  "replacements =
     [(''&'', bs # ''&''), (''%'', bs # ''%''), (''$'', bs # ''$''), (''#'', bs # ''#''),
      (''_'', bs # ''_''), (''{'', bs # ''{''), (''}'', bs # ''}'')]"

definition replace_all :: "(string \<times> string) list \<Rightarrow> string \<Rightarrow> string" where
  "replace_all table text = fold (\<lambda>(old, new) t. replace old new t) table text"

definition escape_special :: "string \<Rightarrow> string" where
  "escape_special text = replace_all replacements text"

text \<open>Lines 344 to 356, in the order of the source.\<close>

definition placeholders :: "(string \<times> string) list" where
  "placeholders =
     [(''<<<H5>>>'', bs # ''textit{''), (''<<<ENDH5>>>'', ''}'' @ [bs, bs]),
      (''<<<H4>>>'', bs # ''textbf{''), (''<<<ENDH4>>>'', ''}'' @ [bs, bs]),
      (''<<<BOLD>>>'', bs # ''textbf{''), (''<<<ENDBOLD>>>'', ''}''),
      (''<<<ITALIC>>>'', bs # ''textit{''), (''<<<ENDITALIC>>>'', ''}''),
      (''<<<CODE>>>'', bs # ''texttt{''), (''<<<ENDCODE>>>'', ''}''),
      (''<<<LINK>>>'', bs # ''href{''), (''<<<LINKTEXT>>>'', ''}{''),
      (''<<<ENDLINK>>>'', ''}'')]"

definition expand_placeholders :: "string \<Rightarrow> string" where
  "expand_placeholders text = replace_all placeholders text"

text \<open>Lines 359 to 362: the header patterns once more, for one to four hashes.\<close>

definition rescan_headers :: "string \<Rightarrow> string" where
  "rescan_headers text =
     re_sub (header_pat ''#'') [T (bs # ''section{''), G 1, T ''}'']
       (re_sub (header_pat ''##'') [T (bs # ''section{''), G 1, T ''}'']
         (re_sub (header_pat ''###'') [T (bs # ''subsection{''), G 1, T ''}'']
           (re_sub (header_pat ''####'') [T (bs # ''textbf{''), G 1, T ''}''] text)))"

text \<open>Lines 365 to 392: the loop over the lines, with its state \<^verbatim>\<open>result_lines\<close> and
  \<^verbatim>\<open>in_list\<close>.\<close>

definition is_list_item :: "string \<Rightarrow> bool" where
  "is_list_item stripped = (startswith ''- '' stripped \<or> startswith ''* '' stripped)"

definition list_step :: "string list \<times> bool \<Rightarrow> string \<Rightarrow> string list \<times> bool" where
  "list_step st line =
     (let result_lines = fst st; in_list = snd st; stripped = strip line in
      if is_list_item stripped
      then ((if \<not> in_list then result_lines @ [bs # ''begin{itemize}''] else result_lines)
              @ [''    '' @ bs # ''item '' @ strip (drop 2 stripped)], True)
      else (let closed = (if in_list then result_lines @ [bs # ''end{itemize}'']
                          else result_lines)
            in (if stripped \<noteq> [] then closed @ [line] else closed, False)))"

definition convert_lists :: "string \<Rightarrow> string" where
  "convert_lists text =
     (let st = foldl list_step ([], False) (split_on nl text);
          result_lines = (if snd st then fst st @ [bs # ''end{itemize}''] else fst st)
      in join [nl] result_lines)"

text \<open>The whole function; \<^verbatim>\<open>None\<close> is the result for a blank text.\<close>

definition markdown_to_latex :: "string \<Rightarrow> string option" where
  "markdown_to_latex markdown_text =
     (let text = strip markdown_text in
      if text = [] then None
      else Some (convert_lists (rescan_headers (expand_placeholders
                   (escape_special (convert_spans (convert_h5_h4 text)))))))"

section \<open>The frame emitter: \<^verbatim>\<open>convert_markdown_to_frame\<close>\<close>

text \<open>A title is \<^verbatim>\<open>None\<close> or a string in the source; both \<^verbatim>\<open>None\<close> and the empty string
  give the frame without a title.\<close>

definition frame_header :: "string option \<Rightarrow> string" where
  "frame_header title =
     (case title of
        None \<Rightarrow> bs # ''begin{frame}'' @ [nl]
      | Some t \<Rightarrow> (if t = [] then bs # ''begin{frame}'' @ [nl]
                  else bs # ''begin{frame}{'' @ t @ ''}'' @ [nl]))"

definition convert_markdown_to_frame :: "string option \<Rightarrow> string \<Rightarrow> string" where
  "convert_markdown_to_frame title text =
     (if strip text = [] then []
      else (case markdown_to_latex text of
              None \<Rightarrow> []
            | Some latex_text \<Rightarrow>
                (if latex_text = [] then []
                 else frame_header title @ latex_text @ [nl] @ bs # ''end{frame}'' @ [nl, nl])))"

section \<open>The assembler: \<^verbatim>\<open>generate_beamer_with_content\<close>\<close>

subsection \<open>Walking the lines of a markdown cell (lines 597 to 655)\<close>

record walk =
  content_latex :: string
  current_frame_content :: "string list"
  current_frame_title :: "string option"
  in_frame :: bool

text \<open>The step written four times in the source: close the frame that is open, when it
  has content.\<close>

definition close_frame :: "walk \<Rightarrow> walk" where
  "close_frame st =
     (if in_frame st \<and> current_frame_content st \<noteq> []
      then st\<lparr>content_latex := content_latex st @
                 convert_markdown_to_frame (current_frame_title st)
                   (join [nl] (current_frame_content st)),
              current_frame_content := []\<rparr>
      else st)"

definition section_text :: "string \<Rightarrow> string" where
  "section_text section_title = [nl] @ bs # ''section{'' @ section_title @ ''}'' @ [nl, nl]"

definition add_section :: "string \<Rightarrow> walk \<Rightarrow> walk" where
  "add_section section_title st =
     st\<lparr>content_latex := content_latex st @ section_text section_title,
        in_frame := False, current_frame_title := None\<rparr>"

definition walk_line :: "walk \<Rightarrow> string \<Rightarrow> walk" where
  "walk_line st line =
     (let line_stripped = strip line in
      if startswith ''## '' line_stripped
      then add_section (strip (lstrip ''## '' line_stripped)) (close_frame st)
      else if startswith ''### '' line_stripped
      then (close_frame st)\<lparr>current_frame_title := Some (strip (lstrip ''### '' line_stripped)),
                             in_frame := True\<rparr>
      else if startswith ''# '' line_stripped
      then add_section (strip (lstrip ''# '' line_stripped)) (close_frame st)
      else if startswith ''---'' line_stripped
      then (if in_frame st \<and> current_frame_content st \<noteq> []
            then (close_frame st)\<lparr>in_frame := False, current_frame_title := None\<rparr>
            else st)
      else (let st1 = (if \<not> in_frame st \<and> line_stripped \<noteq> []
                       then st\<lparr>in_frame := True, current_frame_title := Some []\<rparr>
                       else st)
            in (if in_frame st1
                then st1\<lparr>current_frame_content := current_frame_content st1 @ [line]\<rparr>
                else st1)))"

text \<open>The markdown branch for one cell: \<open>acc\<close> is \<^verbatim>\<open>content_latex\<close> before it, the result
  is \<^verbatim>\<open>content_latex\<close> after it.\<close>

definition walk_markdown :: "string \<Rightarrow> string \<Rightarrow> string" where
  "walk_markdown acc md_content =
     (let text = strip md_content in
      if text = [] then acc
      else content_latex (close_frame
             (foldl walk_line
                \<lparr>content_latex = acc, current_frame_content = [],
                 current_frame_title = None, in_frame = False\<rparr>
                (split_on nl text))))"

subsection \<open>Image frames (lines 709 to 722)\<close>

definition image_title :: "image \<Rightarrow> string" where
  "image_title img =
     (case plot_type img of
        None \<Rightarrow> ''Analysis Result''
      | Some pt \<Rightarrow> (if pt = [] then ''Analysis Result''
                   else title_case (replace ''_'' '' '' pt)))"

definition image_caption :: "int \<Rightarrow> image \<Rightarrow> string" where
  "image_caption cell_idx img =
     (case plot_type img of
        None \<Rightarrow> ''Output from Cell '' @ str_int cell_idx
      | Some pt \<Rightarrow> (if pt = [] then ''Output from Cell '' @ str_int cell_idx
                   else image_title img))"

definition image_frame :: "int \<Rightarrow> image \<Rightarrow> string" where
  "image_frame cell_idx img = concat
    [[nl],
     bs # ''begin{frame}{'' @ image_title img @ ''}'' @ [nl],
     ''    '' @ bs # ''begin{figure}'' @ [nl],
     ''        '' @ bs # ''centering'' @ [nl],
     ''        '' @ bs # ''includegraphics[width=0.85'' @ bs # ''textwidth,height=0.7''
        @ bs # ''textheight,keepaspectratio]{assets/figures/'' @ filename img @ ''}'' @ [nl],
     ''        '' @ bs # ''caption{'' @ image_caption cell_idx img @ ''}'' @ [nl],
     ''    '' @ bs # ''end{figure}'' @ [nl],
     bs # ''end{frame}'' @ [nl],
     [nl]]"

subsection \<open>The dictionaries and the loop over the cell indices (lines 560 to 722)\<close>

text \<open>A Python dictionary with the order of its keys: assigning to a key that is there
  keeps its place, a new key goes to the end.\<close>

fun dict_set :: "'k \<Rightarrow> 'v \<Rightarrow> ('k \<times> 'v) list \<Rightarrow> ('k \<times> 'v) list" where
  "dict_set k v [] = [(k, v)]"
| "dict_set k v ((k', v') # d) = (if k = k' then (k, v) # d else (k', v') # dict_set k v d)"

definition images_by_cell :: "image list \<Rightarrow> (int \<times> image list) list" where
  "images_by_cell images =
     foldl (\<lambda>d img.
              (case map_of d (image_cell_index img) of
                 None \<Rightarrow> dict_set (image_cell_index img) [img] d
               | Some imgs \<Rightarrow> dict_set (image_cell_index img) (imgs @ [img]) d))
       [] images"

definition code_by_cell :: "cell list \<Rightarrow> (int \<times> cell) list" where
  "code_by_cell code_cells = foldl (\<lambda>d code. dict_set (cell_index code) code d) [] code_cells"

definition all_cell_indices :: "image list \<Rightarrow> cell list \<Rightarrow> cell list \<Rightarrow> int set" where
  "all_cell_indices images markdown_cells code_cells =
     set (map cell_index markdown_cells) \<union> set (map cell_index code_cells)
       \<union> set (map fst (images_by_cell images))"

definition add_markdown :: "cell list \<Rightarrow> int \<Rightarrow> string \<Rightarrow> string" where
  "add_markdown markdown_cells cell_idx acc =
     (case find (\<lambda>mc. cell_index mc = cell_idx) markdown_cells of
        None \<Rightarrow> acc
      | Some md_cell \<Rightarrow> walk_markdown acc (content md_cell))"

definition add_code :: "cell list \<Rightarrow> int \<Rightarrow> string \<Rightarrow> string" where
  "add_code code_cells cell_idx acc =
     (case map_of (code_by_cell code_cells) cell_idx of
        None \<Rightarrow> acc
      | Some code_cell \<Rightarrow> acc @ code_frame cell_idx (content code_cell))"

definition add_images :: "image list \<Rightarrow> int \<Rightarrow> string \<Rightarrow> string" where
  "add_images images cell_idx acc =
     (case map_of (images_by_cell images) cell_idx of
        None \<Rightarrow> acc
      | Some imgs \<Rightarrow> foldl (\<lambda>a img. a @ image_frame cell_idx img) acc imgs)"

text \<open>\<^verbatim>\<open>content_latex\<close> at the end of the loop \<^verbatim>\<open>for cell_idx in sorted(all_cell_indices)\<close>.
  The template that this text is put into is read from a file and is not part of the
  model.\<close>

definition generate_content :: "image list \<Rightarrow> cell list \<Rightarrow> cell list \<Rightarrow> string" where
  "generate_content images markdown_cells code_cells =
     foldl (\<lambda>acc cell_idx.
              add_images images cell_idx
                (add_code code_cells cell_idx
                  (add_markdown markdown_cells cell_idx acc)))
       [] (sorted_list_of_set (all_cell_indices images markdown_cells code_cells))"

section \<open>The title and metadata extractor: \<^verbatim>\<open>extract_title_info\<close>\<close>

record title_info =
  title :: string
  subtitle :: string
  author :: string
  institute :: string

text \<open>The loop over the lines of the first cell (lines 416 to 433) has the state
  \<^verbatim>\<open>title\<close>, \<^verbatim>\<open>title_found\<close>, \<^verbatim>\<open>subtitle\<close>.\<close>

record scan =
  scan_title :: string
  title_found :: bool
  scan_subtitle :: string

definition generic_headers :: "string list" where
  "generic_headers = [''problem statement'', ''objectives'', ''introduction'',
                      ''the dataset'', ''eda'', ''models'', ''deliverables'']"

definition scan_line :: "scan \<Rightarrow> string \<Rightarrow> scan" where
  "scan_line st line =
     (let line_stripped = strip line in
      if startswith ''## '' line_stripped \<and> \<not> title_found st
      then st\<lparr>scan_title := strip (lstrip ''## '' line_stripped), title_found := True\<rparr>
      else if startswith ''# '' line_stripped \<and> \<not> title_found st
      then st\<lparr>scan_title := strip (lstrip ''# '' line_stripped), title_found := True\<rparr>
      else if startswith ''### '' line_stripped \<and> title_found st \<and> scan_subtitle st = []
      then (let potential_subtitle = strip (lstrip ''### '' line_stripped) in
            if lower potential_subtitle \<notin> set generic_headers
            then st\<lparr>scan_subtitle := potential_subtitle\<rparr>
            else st)
      else st)"

definition scan_lines :: "string list \<Rightarrow> scan" where
  "scan_lines lines =
     foldl scan_line \<lparr>scan_title = ''Presentation'', title_found = False, scan_subtitle = []\<rparr>
       lines"

text \<open>Lines 437 to 442, the author patterns in the order of the list:
  \<^verbatim>\<open>I,?\s+\*\*([^*]+)\*\*,\<close> and \<^verbatim>\<open>[Aa]uthor:?\s+([A-Z][a-zA-Z\s]+)\<close>, then the same
  with \<^verbatim>\<open>[Bb]y\<close> and \<^verbatim>\<open>[Nn]ame\<close>.\<close>

definition alpha_or_space :: "char \<Rightarrow> bool" where
  "alpha_or_space c = (is_alpha c \<or> is_space c)"

definition either :: "char \<Rightarrow> char \<Rightarrow> item" where
  "either a b = One (\<lambda>c. c = a \<or> c = b)"

definition capitalised :: "item list" where
  "capitalised = [One is_upper, PlusC alpha_or_space]"

definition labelled_name :: "char \<Rightarrow> char \<Rightarrow> string \<Rightarrow> item list" where
  "labelled_name a b rest =
     [either a b] @ lits rest @ [OptC (\<lambda>c. c = CHR '':''), PlusC is_space, Open]
       @ capitalised @ [Close]"

definition author_patterns :: "item list list" where
  "author_patterns =
     [lits ''I'' @ [OptC (\<lambda>c. c = CHR '',''), PlusC is_space] @ lits ''**''
        @ [Open, PlusC (\<lambda>c. c \<noteq> CHR ''*''), Close] @ lits ''**,'',
      labelled_name CHR ''A'' CHR ''a'' ''uthor'',
      labelled_name CHR ''B'' CHR ''b'' ''y'',
      labelled_name CHR ''N'' CHR ''n'' ''ame'']"

text \<open>Lines 451 to 458, the institute patterns.\<close>

definition institute_patterns :: "item list list" where
  "institute_patterns =
     [[Open] @ lits ''University of Colorado Boulder'' @ [Close],
      [Open] @ lits ''Colorado Boulder'' @ [Close],
      [Open] @ lits ''University of '' @ capitalised @ [Close],
      [Open] @ capitalised @ lits '' University'' @ [Close],
      [Open] @ capitalised @ lits '' College'' @ [Close],
      [Open] @ capitalised @ lits '' Institute'' @ [Close]]"

text \<open>The loop \<^verbatim>\<open>for pattern in patterns: ... break\<close>: the first group of the first
  pattern that matches, stripped.\<close>

fun first_match :: "item list list \<Rightarrow> string \<Rightarrow> string option" where
  "first_match [] text = None"
| "first_match (pattern # patterns) text =
     (case re_search pattern text of
        Some gs \<Rightarrow> Some (strip (group gs 1))
      | None \<Rightarrow> first_match patterns text)"

definition find_author :: "string \<Rightarrow> string" where
  "find_author all_content =
     (case first_match author_patterns all_content of
        None \<Rightarrow> ''Author''
      | Some name \<Rightarrow> name)"

definition find_institute :: "string \<Rightarrow> string" where
  "find_institute all_content =
     (case first_match institute_patterns all_content of
        None \<Rightarrow> ''Institute''
      | Some name \<Rightarrow> (if name = ''Colorado Boulder'' then ''University of Colorado Boulder''
                     else name))"

definition extract_title_info :: "cell list \<Rightarrow> title_info" where
  "extract_title_info markdown_cells =
     (case markdown_cells of
        [] \<Rightarrow> \<lparr>title = ''Presentation'', subtitle = [], author = ''Author'',
               institute = ''Institute''\<rparr>
      | first_cell # _ \<Rightarrow>
          (let all_content = join [nl] (map content markdown_cells);
               st = scan_lines (split_on nl (content first_cell))
           in \<lparr>title = scan_title st, subtitle = scan_subtitle st,
               author = find_author all_content,
               institute = find_institute all_content\<rparr>))"

section \<open>Counting frames\<close>

text \<open>\<^verbatim>\<open>s.count(old)\<close>: the number of occurrences that do not overlap, from the left.\<close>

function count_sub :: "string \<Rightarrow> string \<Rightarrow> nat" where
  "count_sub old s =
     (if old = [] then length s + 1
      else if s = [] then 0
      else if startswith old s then 1 + count_sub old (drop (length old) s)
      else count_sub old (tl s))"
  by pat_completeness auto
termination
  by (relation "measure (\<lambda>(old, s). length s)") auto

declare count_sub.simps [simp del]

section \<open>The subtitle, stated over the lines of the first cell\<close>

text \<open>The description of the subtitle in words, to compare \<open>scan_lines\<close> with: the title
  line is the first line that starts (after stripping) with \<^verbatim>\<open>## \<close> or \<^verbatim>\<open># \<close>; among the
  lines after it, the first that starts with \<^verbatim>\<open>### \<close> and whose text is not empty and,
  in lower case, not a generic header, gives the subtitle.\<close>

definition is_title_line :: "string \<Rightarrow> bool" where
  "is_title_line line = (startswith ''## '' (strip line) \<or> startswith ''# '' (strip line))"

definition after_title :: "string list \<Rightarrow> string list" where
  "after_title lines = drop 1 (dropWhile (\<lambda>l. \<not> is_title_line l) lines)"

definition h3_text :: "string \<Rightarrow> string" where
  "h3_text line = strip (lstrip ''### '' (strip line))"

definition acceptable_subtitle :: "string \<Rightarrow> bool" where
  "acceptable_subtitle line =
     (startswith ''### '' (strip line) \<and> h3_text line \<noteq> [] \<and>
      lower (h3_text line) \<notin> set generic_headers)"

definition first_subtitle :: "string list \<Rightarrow> string" where
  "first_subtitle lines =
     (case find acceptable_subtitle (after_title lines) of
        None \<Rightarrow> []
      | Some line \<Rightarrow> h3_text line)"

section \<open>The frames of a markdown cell as a list\<close>

text \<open>
  The source appends each section command and each frame to one string. To speak about
  single frames, the same walk is given a list of what it appends: \<open>closing\<close> is what
  closing the open frame appends, \<open>new_chunks\<close> what one line appends, and \<open>walk_chunks\<close>
  what the lines of a cell and the final closing append. The relation to the string of
  the source is lemma \<open>walk_content_latex\<close> below.
\<close>

datatype chunk = Section string | Frame "string option" "string list"

fun render_chunk :: "chunk \<Rightarrow> string" where
  "render_chunk (Section section_title) = section_text section_title"
| "render_chunk (Frame frame_title body) = convert_markdown_to_frame frame_title (join [nl] body)"

fun frame_body :: "chunk \<Rightarrow> string list" where
  "frame_body (Section section_title) = []"
| "frame_body (Frame frame_title body) = body"

definition closing :: "walk \<Rightarrow> chunk list" where
  "closing st =
     (if in_frame st \<and> current_frame_content st \<noteq> []
      then [Frame (current_frame_title st) (current_frame_content st)]
      else [])"

definition is_section_line :: "string \<Rightarrow> bool" where
  "is_section_line line = (startswith ''## '' (strip line) \<or> startswith ''# '' (strip line))"

definition is_frame_line :: "string \<Rightarrow> bool" where
  "is_frame_line line = startswith ''### '' (strip line)"

definition is_separator :: "string \<Rightarrow> bool" where
  "is_separator line = startswith ''---'' (strip line)"

definition section_title_of :: "string \<Rightarrow> string" where
  "section_title_of line =
     (if startswith ''## '' (strip line) then strip (lstrip ''## '' (strip line))
      else strip (lstrip ''# '' (strip line)))"

definition new_chunks :: "walk \<Rightarrow> string \<Rightarrow> chunk list" where
  "new_chunks st line =
     (if is_section_line line then closing st @ [Section (section_title_of line)]
      else if is_frame_line line then closing st
      else if is_separator line then closing st
      else [])"

fun walk_chunks :: "walk \<Rightarrow> string list \<Rightarrow> chunk list" where
  "walk_chunks st [] = closing st"
| "walk_chunks st (line # lines) = new_chunks st line @ walk_chunks (walk_line st line) lines"

definition start_walk :: "string \<Rightarrow> walk" where
  "start_walk acc = \<lparr>content_latex = acc, current_frame_content = [],
                     current_frame_title = None, in_frame = False\<rparr>"

definition markdown_chunks :: "string \<Rightarrow> chunk list" where
  "markdown_chunks md_content =
     (if strip md_content = [] then []
      else walk_chunks (start_walk []) (split_on nl (strip md_content)))"

text \<open>A line that is content of a frame: no header, no separator, and not blank.\<close>

definition is_content_line :: "string \<Rightarrow> bool" where
  "is_content_line line =
     (strip line \<noteq> [] \<and> \<not> is_section_line line \<and> \<not> is_frame_line line \<and> \<not> is_separator line)"

text \<open>Two states of the walk that differ at most in the text collected so far.\<close>

definition same_frame :: "walk \<Rightarrow> walk \<Rightarrow> bool" where
  "same_frame a b = (current_frame_content a = current_frame_content b \<and>
     current_frame_title a = current_frame_title b \<and> in_frame a = in_frame b)"

text \<open>In every state that the walk reaches, the collected lines are empty unless a frame
  is open. A line is regular when it is neither a header nor a separator; \<open>opened t body\<close>
  is the state in which the frame with title \<open>t\<close> is open and has collected \<open>body\<close>.\<close>

definition wf_walk :: "walk \<Rightarrow> bool" where
  "wf_walk st = (in_frame st \<or> current_frame_content st = [])"

definition is_regular :: "string \<Rightarrow> bool" where
  "is_regular line = (\<not> is_section_line line \<and> \<not> is_frame_line line \<and> \<not> is_separator line)"

definition opened :: "string \<Rightarrow> string list \<Rightarrow> walk" where
  "opened t body = \<lparr>content_latex = [], current_frame_content = body,
                    current_frame_title = Some t, in_frame = True\<rparr>"

definition frame_if :: "string \<Rightarrow> string list \<Rightarrow> chunk list" where
  "frame_if t body = (if body = [] then [] else [Frame (Some t) body])"

text \<open>What the emitter makes of a chunk is empty only for a frame whose converted body is
  empty.\<close>

fun elided :: "chunk \<Rightarrow> bool" where
  "elided (Section section_title) = False"
| "elided (Frame frame_title body) =
     (strip (join [nl] body) = [] \<or> markdown_to_latex (join [nl] body) = None
      \<or> markdown_to_latex (join [nl] body) = Some [])"

section \<open>Escaped characters\<close>

text \<open>The characters that line 340 escapes, and the text that one character becomes
  under the whole table \<open>replacements\<close>.\<close>

definition special_chars :: string where
  "special_chars = ''&%$#_{}''"

definition escape_char :: "char \<Rightarrow> string" where
  "escape_char c = (if c \<in> set special_chars then [bs, c] else [c])"

text \<open>\<open>escaped_from S p s\<close>: every character of \<open>S\<close> in \<open>s\<close> has a backslash directly before
  it, where \<open>p\<close> says whether a backslash is before \<open>s\<close>.\<close>

fun escaped_from :: "string \<Rightarrow> bool \<Rightarrow> string \<Rightarrow> bool" where
  "escaped_from S p [] = True"
| "escaped_from S p (c # s) = ((c \<notin> set S \<or> p) \<and> escaped_from S (c = bs) s)"


text \<open>The placeholders of lines 320 to 327, as the table of lines 344 to 356 lists them.\<close>

definition sentinels :: "string list" where
  "sentinels = map fst placeholders"

text \<open>The escaped characters other than the braces: no command that the translator
  writes contains one of them.\<close>

definition text_only_chars :: string where
  "text_only_chars = ''&%$#_''"

text \<open>Replacing one character \<open>c\<close> by a backslash and \<open>c\<close>, as one entry of \<open>replacements\<close>
  does.\<close>

definition rep1 :: "char \<Rightarrow> string \<Rightarrow> string" where
  "rep1 c s = concat (map (\<lambda>x. if x = c then [bs, c] else [x]) s)"

section \<open>Plain text\<close>

text \<open>\<open>occurs old s\<close>: the text \<open>old\<close> is somewhere in \<open>s\<close> (\<^verbatim>\<open>old in s\<close>).\<close>

fun occurs :: "string \<Rightarrow> string \<Rightarrow> bool" where
  "occurs old [] = startswith old []"
| "occurs old (c # cs) = (startswith old (c # cs) \<or> occurs old cs)"

text \<open>The four patterns of lines 324 to 327 that recognise a span.\<close>

definition span_patterns :: "item list list" where
  "span_patterns = [bold_pat, italic_pat, code_pat, link_pat]"

text \<open>
  Text without markup, as the translator sees it after stripping: none of the escaped
  characters \<^verbatim>\<open>& % $ # _ { }\<close> (so no line is a header, since a header starts with
  \<^verbatim>\<open>#\<close>), no place where one of the span patterns matches, and no line that is a list
  item. A single \<^verbatim>\<open>*\<close>, \<^verbatim>\<open>[\<close> or \<^verbatim>\<open><\<close> is not markup.
\<close>

definition no_markup :: "string \<Rightarrow> bool" where
  "no_markup t =
     (list_all (\<lambda>c. c \<notin> set special_chars) (strip t) \<and>
      list_all (\<lambda>pat. re_search pat (strip t) = None) span_patterns \<and>
      list_all (\<lambda>l. \<not> is_list_item (strip l)) (split_on nl (strip t)))"

text \<open>Text in which none of the placeholders of the translator is written out.\<close>

definition no_placeholder :: "string \<Rightarrow> bool" where
  "no_placeholder t = list_all (\<lambda>s. \<not> occurs s (strip t)) sentinels"

definition is_plain :: "string \<Rightarrow> bool" where
  "is_plain t = (no_markup t \<and> no_placeholder t)"

text \<open>The lines of the stripped text that are not blank.\<close>

definition kept_lines :: "string \<Rightarrow> string list" where
  "kept_lines t = filter (\<lambda>l. strip l \<noteq> []) (split_on nl (strip t))"

section \<open>Code cells are classified by their line count\<close>








section \<open>A single image\<close>

text \<open>
  Claim C7. With no markdown cell, no code cell and one image record at cell index 5
  that has no category, the content is one frame: its title is \<^verbatim>\<open>Analysis Result\<close>, its
  caption \<^verbatim>\<open>Output from Cell 5\<close>, and the file it includes is the file name stored in
  the record. For the file name \<^verbatim>\<open>figure_001.png\<close> the text has one \<^verbatim>\<open>\begin{frame}\<close>
  and one \<^verbatim>\<open>\end{frame}\<close>.
\<close>

theorem single_image_single_frame:
  "generate_content [\<lparr>filename = fname, image_cell_index = 5, plot_type = None\<rparr>] [] [] =
     concat
      [[nl],
       bs # ''begin{frame}{Analysis Result}'' @ [nl],
       ''    '' @ bs # ''begin{figure}'' @ [nl],
       ''        '' @ bs # ''centering'' @ [nl],
       ''        '' @ bs # ''includegraphics[width=0.85'' @ bs # ''textwidth,height=0.7''
          @ bs # ''textheight,keepaspectratio]{assets/figures/'' @ fname @ ''}'' @ [nl],
       ''        '' @ bs # ''caption{Output from Cell 5}'' @ [nl],
       ''    '' @ bs # ''end{figure}'' @ [nl],
       bs # ''end{frame}'' @ [nl],
       [nl]] \<and>
   count_sub (bs # ''begin{frame}'')
     (generate_content
        [\<lparr>filename = ''figure_001.png'', image_cell_index = 5, plot_type = None\<rparr>] [] []) = 1 \<and>
   count_sub (bs # ''end{frame}'')
     (generate_content
        [\<lparr>filename = ''figure_001.png'', image_cell_index = 5, plot_type = None\<rparr>] [] []) = 1 \<and>
   infer_plot_type cell_source counter = None"
proof -
  have "generate_content [\<lparr>filename = fname, image_cell_index = 5, plot_type = None\<rparr>] [] [] =
     concat
      [[nl],
       bs # ''begin{frame}{Analysis Result}'' @ [nl],
       ''    '' @ bs # ''begin{figure}'' @ [nl],
       ''        '' @ bs # ''centering'' @ [nl],
       ''        '' @ bs # ''includegraphics[width=0.85'' @ bs # ''textwidth,height=0.7''
          @ bs # ''textheight,keepaspectratio]{assets/figures/'' @ fname @ ''}'' @ [nl],
       ''        '' @ bs # ''caption{Output from Cell 5}'' @ [nl],
       ''    '' @ bs # ''end{figure}'' @ [nl],
       bs # ''end{frame}'' @ [nl],
       [nl]]"
    by (simp add: generate_content_def all_cell_indices_def images_by_cell_def
        add_markdown_def add_code_def code_by_cell_def add_images_def image_frame_def
        image_title_def image_caption_def str_int_def str_nat.simps digit_char_def)
  moreover have "count_sub (bs # ''begin{frame}'')
     (generate_content
        [\<lparr>filename = ''figure_001.png'', image_cell_index = 5, plot_type = None\<rparr>] [] []) = 1"
    by code_simp
  moreover have "count_sub (bs # ''end{frame}'')
     (generate_content
        [\<lparr>filename = ''figure_001.png'', image_cell_index = 5, plot_type = None\<rparr>] [] []) = 1"
    by code_simp
  ultimately show ?thesis
    by (simp add: infer_plot_type_def)
qed

section \<open>Text that contains a placeholder of the translator\<close>

text \<open>
  Claim C10. The placeholders of the translator are plain ASCII text. The input
  \<^verbatim>\<open>see <<<BOLD>>> here\<close> has no markdown markup (none of the characters that open a
  span, a header or a list item), and the translator turns the placeholder in it into
  the command \<^verbatim>\<open>\textbf{\<close>.
\<close>

theorem literal_placeholder_is_expanded:
  "markdown_to_latex ''see <<<BOLD>>> here'' = Some (''see '' @ bs # ''textbf{ here'') \<and>
   filter (\<lambda>c. c \<in> set ''#*`[]-'') ''see <<<BOLD>>> here'' = []"
  by code_simp

section \<open>The author\<close>

lemma first_match_none:
  "\<forall>p \<in> set ps. re_search p text = None \<Longrightarrow> first_match ps text = None"
  by (induction ps) auto

lemma first_match_at:
  "k < length ps \<Longrightarrow> \<forall>j<k. re_search (ps ! j) text = None \<Longrightarrow>
   re_search (ps ! k) text = Some gs \<Longrightarrow>
   first_match ps text = Some (strip (group gs 1))"
proof (induction ps arbitrary: k)
  case Nil
  then show ?case by simp
next
  case (Cons p ps)
  show ?case
  proof (cases k)
    case 0
    with Cons.prems show ?thesis by simp
  next
    case (Suc k')
    have "re_search p text = None"
      using Cons.prems(2) Suc by auto
    moreover have "first_match ps text = Some (strip (group gs 1))"
    proof (rule Cons.IH)
      show "k' < length ps" using Cons.prems(1) Suc by simp
      show "\<forall>j<k'. re_search (ps ! j) text = None"
        using Cons.prems(2) Suc by auto
      show "re_search (ps ! k') text = Some gs"
        using Cons.prems(3) Suc by simp
    qed
    ultimately show ?thesis by simp
  qed
qed

lemma author_of_cells:
  "author (extract_title_info cells) =
     (case first_match author_patterns (join [nl] (map content cells)) of
        None \<Rightarrow> ''Author'' | Some name \<Rightarrow> name)"
proof (cases cells)
  case Nil
  have "first_match author_patterns [] = None"
    by code_simp
  with Nil show ?thesis
    by (simp add: extract_title_info_def)
next
  case (Cons c cs)
  then show ?thesis
    by (simp add: extract_title_info_def find_author_def Let_def)
qed

lemma length_author_patterns: "length author_patterns = 4"
  by (simp add: author_patterns_def)

text \<open>
  Claim C9. The author is the stripped first group of the first of the four author
  patterns, in the order of the list, that matches the contents of all markdown cells
  joined by newlines; later patterns are not tried. When no pattern matches, and when
  there is no cell, the author is \<^verbatim>\<open>Author\<close>. The function is total: it has a result
  for every list of cells. For the text \<^verbatim>\<open>I, **Jane Doe**, declare...\<close> the author is
  \<^verbatim>\<open>Jane Doe\<close>.
\<close>

theorem author_is_first_matching_pattern:
  "author (extract_title_info []) = ''Author'' \<and>
   length author_patterns = 4 \<and>
   (k < 4 \<and> (\<forall>j<k. re_search (author_patterns ! j) (join [nl] (map content cells)) = None) \<and>
      re_search (author_patterns ! k) (join [nl] (map content cells)) = Some gs
    \<longrightarrow> author (extract_title_info cells) = strip (group gs 1)) \<and>
   ((\<forall>p \<in> set author_patterns. re_search p (join [nl] (map content cells)) = None)
    \<longrightarrow> author (extract_title_info cells) = ''Author'') \<and>
   author (extract_title_info [\<lparr>cell_index = 0, content = ''I, **Jane Doe**, declare...''\<rparr>])
     = ''Jane Doe''"
proof -
  have a: "author (extract_title_info []) = ''Author''"
    by (simp add: extract_title_info_def)
  have b: "author (extract_title_info cells) = strip (group gs 1)"
    if "k < 4" "\<forall>j<k. re_search (author_patterns ! j) (join [nl] (map content cells)) = None"
      "re_search (author_patterns ! k) (join [nl] (map content cells)) = Some gs"
    using first_match_at [of k author_patterns "join [nl] (map content cells)" gs] that
    by (simp add: author_of_cells length_author_patterns)
  have c: "author (extract_title_info cells) = ''Author''"
    if "\<forall>p \<in> set author_patterns. re_search p (join [nl] (map content cells)) = None"
    using first_match_none [OF that] by (simp add: author_of_cells)
  have d: "author (extract_title_info [\<lparr>cell_index = 0, content = ''I, **Jane Doe**, declare...''\<rparr>])
     = ''Jane Doe''"
    by code_simp
  show ?thesis
    using a b c d length_author_patterns by blast
qed

theorem author_is_first_matching_pattern_witness:
  "author (extract_title_info [\<lparr>cell_index = 0, content = ''Report''\<rparr>,
                               \<lparr>cell_index = 3, content = ''Written by: Ann Lee''\<rparr>]) = ''Ann Lee'' \<and>
   author (extract_title_info [\<lparr>cell_index = 0, content = ''plain words''\<rparr>]) = ''Author''"
proof -
  let ?cells = "[\<lparr>cell_index = 0, content = ''Report''\<rparr>,
                 \<lparr>cell_index = 3, content = ''Written by: Ann Lee''\<rparr>]"
  let ?text = "join [nl] (map content ?cells)"
  have p0: "re_search (author_patterns ! 0) ?text = None" by code_simp
  have p1: "re_search (author_patterns ! 1) ?text = None" by code_simp
  have p2: "re_search (author_patterns ! 2) ?text = Some [''Ann Lee'']" by code_simp
  have lt: "\<forall>j<2. re_search (author_patterns ! j) ?text = None"
    using p0 p1 by (auto simp: less_Suc_eq numeral_2_eq_2)
  have first: "author (extract_title_info ?cells) = strip (group [''Ann Lee''] 1)"
    using author_is_first_matching_pattern [of 2 ?cells "[''Ann Lee'']"] lt p2 by simp
  have s: "strip (group [''Ann Lee''] 1) = ''Ann Lee''" by code_simp
  let ?plain = "[\<lparr>cell_index = 0, content = ''plain words''\<rparr>]"
  have none: "\<forall>p \<in> set author_patterns. re_search p (join [nl] (map content ?plain)) = None"
    by code_simp
  have second: "author (extract_title_info ?plain) = ''Author''"
    using author_is_first_matching_pattern [of 0 ?plain "[]"] none by blast
  show ?thesis
    using first s second by simp
qed

section \<open>The subtitle\<close>

lemma scan_line_done:
  "title_found st \<Longrightarrow> scan_subtitle st \<noteq> [] \<Longrightarrow> scan_line st line = st"
  by (simp add: scan_line_def Let_def)

lemma scan_done:
  "title_found st \<Longrightarrow> scan_subtitle st \<noteq> [] \<Longrightarrow>
   scan_subtitle (foldl scan_line st ls) = scan_subtitle st"
  by (induction ls) (simp_all add: scan_line_done)

lemma scan_line_accept:
  "title_found st \<Longrightarrow> scan_subtitle st = [] \<Longrightarrow> acceptable_subtitle line \<Longrightarrow>
   title_found (scan_line st line) \<and> scan_subtitle (scan_line st line) = h3_text line"
  by (auto simp: scan_line_def Let_def acceptable_subtitle_def h3_text_def)

lemma scan_line_reject:
  "title_found st \<Longrightarrow> scan_subtitle st = [] \<Longrightarrow> \<not> acceptable_subtitle line \<Longrightarrow>
   title_found (scan_line st line) \<and> scan_subtitle (scan_line st line) = []"
  by (auto simp: scan_line_def Let_def acceptable_subtitle_def h3_text_def)

lemma scan_after_title:
  "title_found st \<Longrightarrow> scan_subtitle st = [] \<Longrightarrow>
   scan_subtitle (foldl scan_line st ls) =
     (case find acceptable_subtitle ls of None \<Rightarrow> [] | Some l \<Rightarrow> h3_text l)"
proof (induction ls arbitrary: st)
  case Nil
  then show ?case by simp
next
  case (Cons l ls)
  show ?case
  proof (cases "acceptable_subtitle l")
    case True
    have "h3_text l \<noteq> []"
      using True by (simp add: acceptable_subtitle_def)
    then have "scan_subtitle (foldl scan_line (scan_line st l) ls) = h3_text l"
      using scan_done [of "scan_line st l" ls] scan_line_accept [OF Cons.prems True] by simp
    with True show ?thesis by simp
  next
    case False
    then show ?thesis
      using Cons.IH [of "scan_line st l"] scan_line_reject [OF Cons.prems False] by simp
  qed
qed

lemma scan_line_title:
  "\<not> title_found st \<Longrightarrow> scan_subtitle st = [] \<Longrightarrow> is_title_line line \<Longrightarrow>
   title_found (scan_line st line) \<and> scan_subtitle (scan_line st line) = []"
  by (auto simp: scan_line_def Let_def is_title_line_def)

lemma scan_line_before_title:
  "\<not> title_found st \<Longrightarrow> \<not> is_title_line line \<Longrightarrow> scan_line st line = st"
  by (simp add: scan_line_def Let_def is_title_line_def)

lemma scan_before_title:
  "\<not> title_found st \<Longrightarrow> scan_subtitle st = [] \<Longrightarrow>
   scan_subtitle (foldl scan_line st ls) = first_subtitle ls"
proof (induction ls)
  case Nil
  then show ?case by (simp add: first_subtitle_def after_title_def)
next
  case (Cons l ls)
  show ?case
  proof (cases "is_title_line l")
    case True
    have "after_title (l # ls) = ls"
      using True by (simp add: after_title_def)
    then show ?thesis
      using scan_after_title [of "scan_line st l" ls] scan_line_title [OF Cons.prems True]
      by (simp add: first_subtitle_def)
  next
    case False
    have "after_title (l # ls) = after_title ls"
      using False by (simp add: after_title_def)
    then show ?thesis
      using Cons scan_line_before_title [OF Cons.prems(1) False]
      by (simp add: first_subtitle_def)
  qed
qed

lemma first_subtitle_not_generic: "lower (first_subtitle ls) \<notin> set generic_headers"
proof (cases "find acceptable_subtitle (after_title ls)")
  case None
  then show ?thesis
    by (simp add: first_subtitle_def generic_headers_def lower_def)
next
  case (Some l)
  then have "acceptable_subtitle l"
    by (auto simp: find_Some_iff)
  with Some show ?thesis
    by (simp add: first_subtitle_def acceptable_subtitle_def)
qed

text \<open>
  Claim C8. For a list of cells that is not empty, the subtitle comes from the lines of
  the first cell: it is the text of the first line after the title line that starts
  with \<^verbatim>\<open>### \<close> and is acceptable, that is, whose text is not empty and in lower case
  is none of the seven generic headers; a heading that is not acceptable is passed over
  and the scan goes on. When there is no such line the subtitle is empty, as it is for
  no cells at all. The subtitle is never one of the generic headers.
\<close>

theorem subtitle_is_first_acceptable_h3:
  "subtitle (extract_title_info []) = [] \<and>
   (cells \<noteq> [] \<longrightarrow>
      subtitle (extract_title_info cells) = first_subtitle (split_on nl (content (hd cells))) \<and>
      lower (subtitle (extract_title_info cells)) \<notin> set generic_headers) \<and>
   length generic_headers = 7"
proof -
  have "subtitle (extract_title_info cells) = first_subtitle (split_on nl (content (hd cells)))"
    if ne: "cells \<noteq> []"
  proof -
    obtain c cs where cells: "cells = c # cs"
      using ne by (cases cells) auto
    show ?thesis
      using scan_before_title [of "\<lparr>scan_title = ''Presentation'', title_found = False, scan_subtitle = []\<rparr>" "split_on nl (content c)"]
      by (simp add: cells extract_title_info_def scan_lines_def Let_def)
  qed
  then show ?thesis
    using first_subtitle_not_generic
    by (simp add: extract_title_info_def generic_headers_def)
qed

theorem subtitle_is_first_acceptable_h3_witness:
  "subtitle (extract_title_info
     [\<lparr>cell_index = 0, content = ''intro'' @ [nl] @ ''### Early'' @ [nl] @ ''# Title'' @ [nl]
        @ ''### Introduction'' @ [nl] @ ''text'' @ [nl] @ ''### Subtitle'' @ [nl] @ ''### Later''\<rparr>,
      \<lparr>cell_index = 1, content = ''### Other''\<rparr>]) = ''Subtitle'' \<and>
   subtitle (extract_title_info
     [\<lparr>cell_index = 0, content = ''# Title'' @ [nl] @ ''### EDA''\<rparr>]) = []"
proof -
  let ?a = "[\<lparr>cell_index = 0, content = ''intro'' @ [nl] @ ''### Early'' @ [nl] @ ''# Title'' @ [nl]
        @ ''### Introduction'' @ [nl] @ ''text'' @ [nl] @ ''### Subtitle'' @ [nl] @ ''### Later''\<rparr>,
      \<lparr>cell_index = 1, content = ''### Other''\<rparr>]"
  let ?b = "[\<lparr>cell_index = 0, content = ''# Title'' @ [nl] @ ''### EDA''\<rparr>]"
  have a: "first_subtitle (split_on nl (content (hd ?a))) = ''Subtitle''" by code_simp
  have b: "first_subtitle (split_on nl (content (hd ?b))) = []" by code_simp
  show ?thesis
    using subtitle_is_first_acceptable_h3 [of ?a] subtitle_is_first_acceptable_h3 [of ?b] a b
    by simp
qed

section \<open>The walk appends what its list of chunks says\<close>

lemma h3_not_h1: "startswith ''### '' s \<Longrightarrow> \<not> startswith ''# '' s"
  by (cases s; cases "tl s") auto

lemma h3_not_h2: "startswith ''### '' s \<Longrightarrow> \<not> startswith ''## '' s"
  by (cases s; cases "tl s"; cases "tl (tl s)") auto

lemma close_frame_content_latex:
  "content_latex (close_frame st) = content_latex st @ concat (map render_chunk (closing st))"
  by (auto simp: close_frame_def closing_def)

lemma close_frame_fields:
  "current_frame_title (close_frame st) = current_frame_title st"
  "in_frame (close_frame st) = in_frame st"
  "current_frame_content (close_frame st) = (if in_frame st then [] else current_frame_content st)"
  by (simp_all add: close_frame_def)

lemma walk_line_content_latex:
  "content_latex (walk_line st line) =
     content_latex st @ concat (map render_chunk (new_chunks st line))"
  using h3_not_h1 [of "strip line"] h3_not_h2 [of "strip line"]
  by (auto simp: walk_line_def new_chunks_def Let_def add_section_def close_frame_content_latex
      is_section_line_def is_frame_line_def is_separator_def section_title_of_def closing_def)

lemma walk_content_latex:
  "content_latex (close_frame (foldl walk_line st ls)) =
     content_latex st @ concat (map render_chunk (walk_chunks st ls))"
  by (induction ls arbitrary: st) (simp_all add: close_frame_content_latex walk_line_content_latex)

lemma same_frame_step:
  "same_frame a b \<Longrightarrow> new_chunks a l = new_chunks b l \<and> same_frame (walk_line a l) (walk_line b l)"
  by (auto simp: same_frame_def new_chunks_def closing_def walk_line_def Let_def add_section_def close_frame_fields)

lemma same_frame_chunks:
  "same_frame a b \<Longrightarrow> walk_chunks a ls = walk_chunks b ls"
proof (induction ls arbitrary: a b)
  case Nil
  then show ?case by (simp add: same_frame_def closing_def)
next
  case (Cons l ls)
  then show ?case
    using same_frame_step [OF Cons.prems, of l] by simp
qed

lemma walk_markdown_chunks:
  "walk_markdown acc md_content = acc @ concat (map render_chunk (markdown_chunks md_content))"
proof (cases "strip md_content = []")
  case True
  then show ?thesis by (simp add: walk_markdown_def markdown_chunks_def)
next
  case False
  have "same_frame (start_walk acc) (start_walk [])"
    by (simp add: same_frame_def start_walk_def)
  then have "walk_chunks (start_walk acc) (split_on nl (strip md_content)) =
             walk_chunks (start_walk []) (split_on nl (strip md_content))"
    by (rule same_frame_chunks)
  then show ?thesis
    using False walk_content_latex [of "start_walk acc" "split_on nl (strip md_content)"]
    by (simp add: walk_markdown_def markdown_chunks_def Let_def start_walk_def)
qed

section \<open>The order of the content\<close>

lemma map_of_dict_set: "map_of (dict_set k v d) = (map_of d)(k \<mapsto> v)"
  by (induction d) (auto simp: fun_eq_iff)

lemma foldl_append_acc: "foldl (\<lambda>a x. a @ f x) acc xs = acc @ concat (map f xs)"
  by (induction xs arbitrary: acc) simp_all

lemma images_by_cell_lookup:
  "map_of (images_by_cell images) i =
     (if filter (\<lambda>img. image_cell_index img = i) images = [] then None
      else Some (filter (\<lambda>img. image_cell_index img = i) images))"
proof (induction images arbitrary: i rule: rev_induct)
  case Nil
  then show ?case by (simp add: images_by_cell_def)
next
  case (snoc img images)
  have step: "images_by_cell (images @ [img]) =
     (case map_of (images_by_cell images) (image_cell_index img) of
        None \<Rightarrow> dict_set (image_cell_index img) [img] (images_by_cell images)
      | Some imgs \<Rightarrow> dict_set (image_cell_index img) (imgs @ [img]) (images_by_cell images))"
    unfolding images_by_cell_def by simp
  show ?case
    using snoc.IH [of i] snoc.IH [of "image_cell_index img"]
    by (auto simp: step map_of_dict_set split: option.splits if_splits)
qed

lemma images_by_cell_keys:
  "set (map fst (images_by_cell images)) = set (map image_cell_index images)"
proof -
  have "i \<in> set (map fst (images_by_cell images)) \<longleftrightarrow> i \<in> set (map image_cell_index images)" for i
  proof -
    have "i \<in> set (map fst (images_by_cell images)) \<longleftrightarrow> map_of (images_by_cell images) i \<noteq> None"
      by (simp add: map_of_eq_None_iff)
    also have "\<dots> \<longleftrightarrow> filter (\<lambda>img. image_cell_index img = i) images \<noteq> []"
      by (simp add: images_by_cell_lookup)
    also have "\<dots> \<longleftrightarrow> i \<in> set (map image_cell_index images)"
      by (auto simp: filter_empty_conv)
    finally show ?thesis .
  qed
  then show ?thesis by blast
qed

lemma add_images_frames:
  "add_images images i acc =
     acc @ concat (map (image_frame i) (filter (\<lambda>img. image_cell_index img = i) images))"
  by (simp add: add_images_def images_by_cell_lookup foldl_append_acc)

lemma add_code_acc: "add_code code_cells i acc = acc @ add_code code_cells i []"
  by (simp add: add_code_def split: option.splits)

lemma add_markdown_acc: "add_markdown markdown_cells i acc = acc @ add_markdown markdown_cells i []"
  by (simp add: add_markdown_def walk_markdown_chunks [of acc] walk_markdown_chunks [of "[]"]
      split: option.splits)

lemma cell_step_acc:
  "add_images images i (add_code code_cells i (add_markdown markdown_cells i acc)) =
     acc @ (add_markdown markdown_cells i [] @ add_code code_cells i [] @ add_images images i [])"
proof -
  have "add_images images i (add_code code_cells i (add_markdown markdown_cells i acc)) =
        add_code code_cells i (add_markdown markdown_cells i acc) @ add_images images i []"
    by (simp add: add_images_frames)
  also have "\<dots> = (add_markdown markdown_cells i acc @ add_code code_cells i [])
                      @ add_images images i []"
    using add_code_acc [of code_cells i "add_markdown markdown_cells i acc"] by simp
  also have "\<dots> = acc @ (add_markdown markdown_cells i [] @ add_code code_cells i []
                      @ add_images images i [])"
    using add_markdown_acc [of markdown_cells i acc] by simp
  finally show ?thesis .
qed

text \<open>
  Claim C5. The loop runs over the cell indices that occur in the markdown cells, the
  code cells or the image records, each once, in ascending order. What it appends for
  one index is the output of the markdown cell, then the frame of the code cell, then
  the frames of the images of that index, which are the frames of the image records
  with that index in the order of the list.
\<close>

theorem content_follows_sorted_indices:
  "generate_content images markdown_cells code_cells =
     concat (map (\<lambda>i. add_markdown markdown_cells i [] @ add_code code_cells i []
                        @ add_images images i [])
       (sorted_list_of_set (all_cell_indices images markdown_cells code_cells))) \<and>
   all_cell_indices images markdown_cells code_cells =
     cell_index ` set markdown_cells \<union> cell_index ` set code_cells
       \<union> image_cell_index ` set images \<and>
   sorted (sorted_list_of_set (all_cell_indices images markdown_cells code_cells)) \<and>
   distinct (sorted_list_of_set (all_cell_indices images markdown_cells code_cells)) \<and>
   set (sorted_list_of_set (all_cell_indices images markdown_cells code_cells)) =
     all_cell_indices images markdown_cells code_cells \<and>
   add_images images i [] =
     concat (map (image_frame i) (filter (\<lambda>img. image_cell_index img = i) images))"
proof -
  have fin: "finite (all_cell_indices images markdown_cells code_cells)"
    by (simp add: all_cell_indices_def)
  have "generate_content images markdown_cells code_cells =
     foldl (\<lambda>acc i. acc @ (add_markdown markdown_cells i [] @ add_code code_cells i []
                               @ add_images images i []))
       [] (sorted_list_of_set (all_cell_indices images markdown_cells code_cells))"
    unfolding generate_content_def
    using cell_step_acc [of images _ code_cells markdown_cells] by simp
  then have a: "generate_content images markdown_cells code_cells =
     concat (map (\<lambda>i. add_markdown markdown_cells i [] @ add_code code_cells i []
                        @ add_images images i [])
       (sorted_list_of_set (all_cell_indices images markdown_cells code_cells)))"
    by (simp add: foldl_append_acc)
  have b: "all_cell_indices images markdown_cells code_cells =
     cell_index ` set markdown_cells \<union> cell_index ` set code_cells
       \<union> image_cell_index ` set images"
    using images_by_cell_keys [of images] by (simp add: all_cell_indices_def)
  show ?thesis
    using a b fin add_images_frames [of images i "[]"] by simp
qed

section \<open>Frames of a markdown cell: none twice, none lost\<close>

lemma sep_not_header:
  "startswith ''---'' s \<Longrightarrow> \<not> startswith ''## '' s \<and> \<not> startswith ''# '' s \<and> \<not> startswith ''### '' s"
  by (cases s) auto

lemma walk_line_section:
  "is_section_line l \<Longrightarrow>
   in_frame (walk_line st l) = False \<and>
   current_frame_content (walk_line st l) = (if in_frame st then [] else current_frame_content st)"
  using h3_not_h1 [of "strip l"] h3_not_h2 [of "strip l"]
  by (auto simp: walk_line_def Let_def is_section_line_def add_section_def close_frame_fields)

lemma walk_line_frame:
  "is_frame_line l \<Longrightarrow>
   same_frame (walk_line st l)
     (opened (h3_text l) (if in_frame st then [] else current_frame_content st))"
  using h3_not_h1 [of "strip l"] h3_not_h2 [of "strip l"]
  by (auto simp: walk_line_def Let_def is_frame_line_def close_frame_fields same_frame_def
      opened_def h3_text_def)

lemma walk_line_separator:
  "is_separator l \<Longrightarrow>
   walk_line st l =
     (if in_frame st \<and> current_frame_content st \<noteq> []
      then (close_frame st)\<lparr>in_frame := False, current_frame_title := None\<rparr> else st)"
  using sep_not_header [of "strip l"]
  by (simp add: walk_line_def Let_def is_separator_def)

lemma walk_line_regular:
  "is_regular l \<Longrightarrow>
   walk_line st l =
     (if in_frame st then st\<lparr>current_frame_content := current_frame_content st @ [l]\<rparr>
      else if strip l \<noteq> []
      then st\<lparr>in_frame := True, current_frame_title := Some [],
              current_frame_content := current_frame_content st @ [l]\<rparr>
      else st)"
  by (simp add: walk_line_def Let_def is_regular_def is_section_line_def is_frame_line_def
      is_separator_def)

lemma new_chunks_regular: "is_regular l \<Longrightarrow> new_chunks st l = []"
  by (simp add: new_chunks_def is_regular_def)

lemma line_classes:
  "is_section_line l \<or> is_frame_line l \<or> is_separator l \<or> is_regular l"
  by (auto simp: is_regular_def)

lemma wf_walk_line: "wf_walk st \<Longrightarrow> wf_walk (walk_line st l)"
proof -
  assume wf: "wf_walk st"
  consider (sec) "is_section_line l" | (frm) "is_frame_line l" | (sep) "is_separator l"
    | (reg) "is_regular l"
    using line_classes [of l] by blast
  then show ?thesis
  proof cases
    case sec
    then show ?thesis
      using walk_line_section [OF sec, of st] wf by (auto simp: wf_walk_def)
  next
    case frm
    then show ?thesis
      using walk_line_frame [OF frm, of st] by (simp add: wf_walk_def same_frame_def opened_def)
  next
    case sep
    then show ?thesis
      using wf by (auto simp: walk_line_separator wf_walk_def close_frame_fields)
  next
    case reg
    then show ?thesis
      using wf by (auto simp: walk_line_regular wf_walk_def)
  qed
qed

lemma frame_body_closing:
  "wf_walk st \<Longrightarrow> concat (map frame_body (closing st)) = current_frame_content st"
  by (auto simp: closing_def wf_walk_def)

lemma body_lines_kept:
  "wf_walk st \<Longrightarrow>
   filter (\<lambda>l. strip l \<noteq> []) (concat (map frame_body (walk_chunks st ls))) =
     filter (\<lambda>l. strip l \<noteq> []) (current_frame_content st) @ filter is_content_line ls"
proof (induction ls arbitrary: st)
  case Nil
  then show ?case by (simp add: frame_body_closing)
next
  case (Cons l ls)
  have wf': "wf_walk (walk_line st l)"
    using Cons.prems by (rule wf_walk_line)
  note IH = Cons.IH [OF wf']
  consider (sec) "is_section_line l" | (frm) "is_frame_line l" "\<not> is_section_line l"
    | (sep) "is_separator l" "\<not> is_section_line l" "\<not> is_frame_line l" | (reg) "is_regular l"
    using line_classes [of l] by blast
  then show ?case
  proof cases
    case sec
    have "current_frame_content (walk_line st l) = []"
      using walk_line_section [OF sec, of st] Cons.prems by (auto simp: wf_walk_def)
    then show ?thesis
      using IH sec Cons.prems
      by (simp add: new_chunks_def frame_body_closing is_content_line_def)
  next
    case frm
    have "current_frame_content (walk_line st l) = []"
      using walk_line_frame [OF frm(1), of st] Cons.prems
      by (auto simp: wf_walk_def same_frame_def opened_def)
    then show ?thesis
      using IH frm Cons.prems
      by (simp add: new_chunks_def frame_body_closing is_content_line_def)
  next
    case sep
    show ?thesis
    proof (cases "in_frame st \<and> current_frame_content st \<noteq> []")
      case True
      then have "current_frame_content (walk_line st l) = []"
        using sep(1) by (simp add: walk_line_separator close_frame_fields)
      then show ?thesis
        using IH sep Cons.prems
        by (simp add: new_chunks_def frame_body_closing is_content_line_def)
    next
      case False
      then have "walk_line st l = st" "closing st = []" "current_frame_content st = []"
        using sep(1) Cons.prems by (auto simp: walk_line_separator closing_def wf_walk_def)
      then show ?thesis
        using IH sep by (simp add: new_chunks_def is_content_line_def)
    qed
  next
    case reg
    have c: "is_content_line l \<longleftrightarrow> strip l \<noteq> []"
      using reg by (simp add: is_content_line_def is_regular_def)
    show ?thesis
      using IH reg Cons.prems c
      by (auto simp: new_chunks_regular walk_line_regular wf_walk_def)
  qed
qed

lemma frame_line_not_section: "is_frame_line h \<Longrightarrow> \<not> is_section_line h"
  using h3_not_h1 [of "strip h"] h3_not_h2 [of "strip h"]
  by (auto simp: is_frame_line_def is_section_line_def)

lemma separator_not_header: "is_separator n \<Longrightarrow> \<not> is_section_line n \<and> \<not> is_frame_line n"
  using sep_not_header [of "strip n"]
  by (auto simp: is_separator_def is_section_line_def is_frame_line_def)

lemma opened_fields:
  "current_frame_content (opened t body) = body"
  "in_frame (opened t body)"
  "current_frame_title (opened t body) = Some t"
  by (simp_all add: opened_def)

lemma closing_opened: "closing (opened t body) = frame_if t body"
  by (simp add: closing_def opened_def frame_if_def)

lemma collect_regular:
  "\<forall>l \<in> set body. is_regular l \<Longrightarrow>
   walk_chunks (opened t b) (body @ rest) = walk_chunks (opened t (b @ body)) rest"
proof (induction body arbitrary: b)
  case Nil
  then show ?case by simp
next
  case (Cons l body)
  have "walk_line (opened t b) l = opened t (b @ [l])"
    using Cons.prems by (simp add: walk_line_regular opened_def)
  then show ?case
    using Cons by (simp add: new_chunks_regular)
qed

lemma open_frame_collects:
  assumes "wf_walk st" "is_frame_line h" "\<forall>l \<in> set body. is_regular l"
  shows "walk_chunks st (h # body @ rest) = closing st @ walk_chunks (opened (h3_text h) body) rest"
proof -
  have "current_frame_content st = []" if "\<not> in_frame st"
    using assms(1) that by (simp add: wf_walk_def)
  then have "same_frame (walk_line st h) (opened (h3_text h) [])"
    using walk_line_frame [OF assms(2), of st] by (auto simp: same_frame_def)
  then have "walk_chunks (walk_line st h) (body @ rest) =
             walk_chunks (opened (h3_text h) []) (body @ rest)"
    by (rule same_frame_chunks)
  moreover have "new_chunks st h = closing st"
    using assms(2) frame_line_not_section [OF assms(2)] by (simp add: new_chunks_def)
  ultimately show ?thesis
    using collect_regular [OF assms(3), of "h3_text h" "[]" rest] by simp
qed

lemma opened_then_header:
  assumes "is_section_line n \<or> is_frame_line n"
  shows "walk_chunks (opened t body) (n # rest) = frame_if t body @ walk_chunks (opened t []) (n # rest)"
proof -
  have "same_frame (walk_line (opened t body) n) (walk_line (opened t []) n)"
  proof (cases "is_section_line n")
    case True
    then show ?thesis
      using walk_line_section [OF True, of "opened t body"] walk_line_section [OF True, of "opened t []"]
        h3_not_h1 [of "strip n"] h3_not_h2 [of "strip n"]
      by (auto simp: same_frame_def walk_line_def Let_def is_section_line_def add_section_def
          close_frame_fields opened_def)
  next
    case False
    then have f: "is_frame_line n" using assms by simp
    show ?thesis
      using walk_line_frame [OF f, of "opened t body"] walk_line_frame [OF f, of "opened t []"]
      by (simp add: same_frame_def opened_def)
  qed
  then have "walk_chunks (walk_line (opened t body) n) rest =
             walk_chunks (walk_line (opened t []) n) rest"
    by (rule same_frame_chunks)
  moreover have "new_chunks (opened t body) n = frame_if t body @ new_chunks (opened t []) n"
    using assms by (auto simp: new_chunks_def closing_opened frame_if_def)
  ultimately show ?thesis by simp
qed

lemma opened_then_separator:
  assumes "is_separator n"
  shows "walk_chunks (opened t body) (n # rest) =
           (if body = [] then walk_chunks (opened t []) rest
            else Frame (Some t) body # walk_chunks (start_walk []) rest)"
proof (cases "body = []")
  case True
  then show ?thesis
    using assms separator_not_header [OF assms]
    by (simp add: new_chunks_def walk_line_separator closing_opened frame_if_def opened_fields)
next
  case False
  have "same_frame (walk_line (opened t body) n) (start_walk [])"
    using assms False
    by (simp add: walk_line_separator same_frame_def opened_def start_walk_def close_frame_fields)
  then have "walk_chunks (walk_line (opened t body) n) rest = walk_chunks (start_walk []) rest"
    by (rule same_frame_chunks)
  then show ?thesis
    using assms False separator_not_header [OF assms]
    by (simp add: new_chunks_def closing_opened frame_if_def)
qed

lemma chunk_frames_nonempty:
  "c \<in> set (walk_chunks st ls) \<Longrightarrow> (case c of Section s \<Rightarrow> True | Frame t b \<Rightarrow> b \<noteq> [])"
proof (induction ls arbitrary: st)
  case Nil
  then show ?case by (auto simp: closing_def split: if_splits)
next
  case (Cons l ls)
  then show ?case
    by (auto simp: new_chunks_def closing_def split: if_splits)
qed

lemma render_empty_iff: "render_chunk c = [] \<longleftrightarrow> elided c"
proof (cases c)
  case (Section s)
  then show ?thesis by (simp add: section_text_def)
next
  case (Frame t b)
  have "frame_header t \<noteq> []"
    by (simp add: frame_header_def split: option.splits)
  then show ?thesis
    using Frame by (auto simp: convert_markdown_to_frame_def split: option.splits)
qed

lemma strip_Nil: "strip [] = []"
  by (simp add: strip_def)

lemma wf_start: "wf_walk (start_walk acc)"
  by (simp add: wf_walk_def start_walk_def)

lemma markdown_body_lines:
  "filter (\<lambda>l. strip l \<noteq> []) (concat (map frame_body (markdown_chunks md_content))) =
     filter is_content_line (split_on nl (strip md_content))"
proof (cases "strip md_content = []")
  case True
  then show ?thesis
    by (simp add: markdown_chunks_def is_content_line_def strip_Nil)
next
  case False
  then show ?thesis
    using body_lines_kept [OF wf_start, of "[]" "split_on nl (strip md_content)"]
    by (simp add: markdown_chunks_def start_walk_def)
qed

lemma code_by_cell_lookup:
  "map_of (code_by_cell code_cells) i = find (\<lambda>c. cell_index c = i) (rev code_cells)"
proof (induction code_cells rule: rev_induct)
  case Nil
  then show ?case by (simp add: code_by_cell_def)
next
  case (snoc c cs)
  have "code_by_cell (cs @ [c]) = dict_set (cell_index c) c (code_by_cell cs)"
    by (simp add: code_by_cell_def)
  then show ?case
    using snoc by (simp add: map_of_dict_set)
qed

lemma add_code_last:
  "add_code code_cells i acc =
     acc @ (case find (\<lambda>c. cell_index c = i) (rev code_cells) of
              None \<Rightarrow> [] | Some c \<Rightarrow> code_frame i (content c))"
  by (simp add: add_code_def code_by_cell_lookup split: option.splits)

lemma add_markdown_first:
  "add_markdown markdown_cells i acc =
     acc @ (case find (\<lambda>mc. cell_index mc = i) markdown_cells of
              None \<Rightarrow> [] | Some mc \<Rightarrow> concat (map render_chunk (markdown_chunks (content mc))))"
  by (simp add: add_markdown_def walk_markdown_chunks split: option.splits)

text \<open>
  Claim C6. For one cell index the assembler appends the rendering of the chunks of the
  markdown cell with that index, one frame for the code cell with that index, and one
  frame for each image record with that index, in the order of the records. For the
  walk over a markdown cell: what it appends is the rendering of its chunks, each once
  and in order. The lines of the frames, blank ones aside, are the
  content lines of the cell, each once and in order: no line is in two frames and none is
  lost. A frame that is handed to the emitter has at least one line, and the emitter
  gives the empty text only for a frame whose converted body is empty. For a frame that
  a \<^verbatim>\<open>### \<close> line opens in a state of the walk, with the regular lines \<open>body\<close> after
  it: at the end of the cell, and before the next header, the frame is there once when
  \<open>body\<close> is not empty and not at all when it is empty, and the walk goes on with no
  line collected; a separator closes the frame when \<open>body\<close> is not empty and leaves it
  open when \<open>body\<close> is empty.
\<close>

theorem markdown_frames_emitted_once:
  "walk_markdown acc md_content = acc @ concat (map render_chunk (markdown_chunks md_content)) \<and>
   filter (\<lambda>l. strip l \<noteq> []) (concat (map frame_body (markdown_chunks md_content))) =
     filter is_content_line (split_on nl (strip md_content)) \<and>
   (\<forall>c \<in> set (markdown_chunks md_content).
      (render_chunk c = [] \<longleftrightarrow> elided c) \<and>
      (case c of Section s \<Rightarrow> True | Frame t b \<Rightarrow> b \<noteq> [])) \<and>
   wf_walk (start_walk acc) \<and>
   (wf_walk st \<longrightarrow> wf_walk (walk_line st l)) \<and>
   (wf_walk st \<and> is_frame_line h \<and> (\<forall>l \<in> set body. is_regular l) \<longrightarrow>
      walk_chunks st (h # body) = closing st @ frame_if (h3_text h) body \<and>
      (is_section_line n \<or> is_frame_line n \<longrightarrow>
         walk_chunks st (h # body @ n # rest) =
           closing st @ frame_if (h3_text h) body @ walk_chunks (opened (h3_text h) []) (n # rest)) \<and>
      (is_separator n \<longrightarrow>
         walk_chunks st (h # body @ n # rest) =
           closing st @ (if body = [] then walk_chunks (opened (h3_text h) []) rest
                         else Frame (Some (h3_text h)) body # walk_chunks (start_walk []) rest))) \<and>
   add_markdown markdown_cells i acc =
     acc @ (case find (\<lambda>mc. cell_index mc = i) markdown_cells of
              None \<Rightarrow> [] | Some mc \<Rightarrow> concat (map render_chunk (markdown_chunks (content mc)))) \<and>
   add_code code_cells i acc =
     acc @ (case find (\<lambda>c. cell_index c = i) (rev code_cells) of
              None \<Rightarrow> [] | Some c \<Rightarrow> code_frame i (content c)) \<and>
   add_images images i acc =
     acc @ concat (map (image_frame i) (filter (\<lambda>img. image_cell_index img = i) images))"
proof -
  have frames: "(render_chunk c = [] \<longleftrightarrow> elided c) \<and>
      (case c of Section s \<Rightarrow> True | Frame t b \<Rightarrow> b \<noteq> [])"
    if "c \<in> set (markdown_chunks md_content)" for c
  proof -
    have "c \<in> set (walk_chunks (start_walk []) (split_on nl (strip md_content)))"
      using that by (simp add: markdown_chunks_def split: if_splits)
    then show ?thesis
      using chunk_frames_nonempty render_empty_iff by blast
  qed
  have opened_cases:
    "walk_chunks st (h # body) = closing st @ frame_if (h3_text h) body \<and>
      (is_section_line n \<or> is_frame_line n \<longrightarrow>
         walk_chunks st (h # body @ n # rest) =
           closing st @ frame_if (h3_text h) body @ walk_chunks (opened (h3_text h) []) (n # rest)) \<and>
      (is_separator n \<longrightarrow>
         walk_chunks st (h # body @ n # rest) =
           closing st @ (if body = [] then walk_chunks (opened (h3_text h) []) rest
                         else Frame (Some (h3_text h)) body # walk_chunks (start_walk []) rest))"
    if h: "wf_walk st" "is_frame_line h" "\<forall>l \<in> set body. is_regular l"
  proof -
    have a: "walk_chunks st (h # body) = closing st @ frame_if (h3_text h) body"
      using open_frame_collects [OF h, of "[]"] by (simp add: closing_opened)
    have s: "walk_chunks st (h # body @ n # rest) =
             closing st @ walk_chunks (opened (h3_text h) body) (n # rest)"
      by (rule open_frame_collects [OF h])
    have b: "walk_chunks st (h # body @ n # rest) =
           closing st @ frame_if (h3_text h) body @ walk_chunks (opened (h3_text h) []) (n # rest)"
      if hn: "is_section_line n \<or> is_frame_line n"
    proof -
      have "walk_chunks (opened (h3_text h) body) (n # rest) =
            frame_if (h3_text h) body @ walk_chunks (opened (h3_text h) []) (n # rest)"
        by (rule opened_then_header [OF hn])
      with s show ?thesis by (simp only:)
    qed
    have c: "walk_chunks st (h # body @ n # rest) =
           closing st @ (if body = [] then walk_chunks (opened (h3_text h) []) rest
                         else Frame (Some (h3_text h)) body # walk_chunks (start_walk []) rest)"
      if hs: "is_separator n"
    proof -
      have "walk_chunks (opened (h3_text h) body) (n # rest) =
            (if body = [] then walk_chunks (opened (h3_text h) []) rest
             else Frame (Some (h3_text h)) body # walk_chunks (start_walk []) rest)"
        by (rule opened_then_separator [OF hs])
      with s show ?thesis by (simp only:)
    qed
    show ?thesis
      using a b c by blast
  qed
  show ?thesis
  proof (intro conjI)
    show "walk_markdown acc md_content = acc @ concat (map render_chunk (markdown_chunks md_content))"
      by (rule walk_markdown_chunks)
    show "filter (\<lambda>l. strip l \<noteq> []) (concat (map frame_body (markdown_chunks md_content))) =
          filter is_content_line (split_on nl (strip md_content))"
      by (rule markdown_body_lines)
    show "\<forall>c \<in> set (markdown_chunks md_content).
      (render_chunk c = [] \<longleftrightarrow> elided c) \<and>
      (case c of Section s \<Rightarrow> True | Frame t b \<Rightarrow> b \<noteq> [])"
      using frames by blast
    show "wf_walk (start_walk acc)"
      by (rule wf_start)
    show "wf_walk st \<longrightarrow> wf_walk (walk_line st l)"
      using wf_walk_line by blast
    show "wf_walk st \<and> is_frame_line h \<and> (\<forall>l \<in> set body. is_regular l) \<longrightarrow>
      walk_chunks st (h # body) = closing st @ frame_if (h3_text h) body \<and>
      (is_section_line n \<or> is_frame_line n \<longrightarrow>
         walk_chunks st (h # body @ n # rest) =
           closing st @ frame_if (h3_text h) body @ walk_chunks (opened (h3_text h) []) (n # rest)) \<and>
      (is_separator n \<longrightarrow>
         walk_chunks st (h # body @ n # rest) =
           closing st @ (if body = [] then walk_chunks (opened (h3_text h) []) rest
                         else Frame (Some (h3_text h)) body # walk_chunks (start_walk []) rest))"
      using opened_cases by blast
    show "add_markdown markdown_cells i acc =
     acc @ (case find (\<lambda>mc. cell_index mc = i) markdown_cells of
              None \<Rightarrow> [] | Some mc \<Rightarrow> concat (map render_chunk (markdown_chunks (content mc))))"
      by (rule add_markdown_first)
    show "add_code code_cells i acc =
     acc @ (case find (\<lambda>c. cell_index c = i) (rev code_cells) of
              None \<Rightarrow> [] | Some c \<Rightarrow> code_frame i (content c))"
      by (rule add_code_last)
    show "add_images images i acc =
     acc @ concat (map (image_frame i) (filter (\<lambda>img. image_cell_index img = i) images))"
      by (rule add_images_frames)
  qed
qed

theorem markdown_frames_emitted_once_witness:
  "markdown_chunks (''### A'' @ [nl] @ ''### B'' @ [nl] @ ''foo'' @ [nl] @ ''---'' @ [nl]
      @ ''### C'' @ [nl] @ ''---'' @ [nl] @ ''bar'' @ [nl] @ ''## S'' @ [nl] @ ''### D'')
     = [Frame (Some ''B'') [''foo''], Frame (Some ''C'') [''bar''], Section ''S''] \<and>
   walk_markdown ''x'' (''### A'' @ [nl] @ ''### B'' @ [nl] @ ''foo'' @ [nl] @ ''---'' @ [nl]
      @ ''### C'' @ [nl] @ ''---'' @ [nl] @ ''bar'' @ [nl] @ ''## S'' @ [nl] @ ''### D'')
     = ''x'' @ convert_markdown_to_frame (Some ''B'') ''foo''
         @ convert_markdown_to_frame (Some ''C'') ''bar'' @ section_text ''S'' \<and>
   walk_chunks (start_walk []) [''### A'', ''foo'', ''bar'', ''## S'']
     = [Frame (Some ''A'') [''foo'', ''bar''], Section ''S''] \<and>
   walk_chunks (start_walk []) [''### A'', ''foo'', ''---'', ''bar'']
     = [Frame (Some ''A'') [''foo''], Frame (Some []) [''bar'']] \<and>
   walk_chunks (start_walk []) [''### A''] = []"
proof -
  let ?md = "''### A'' @ [nl] @ ''### B'' @ [nl] @ ''foo'' @ [nl] @ ''---'' @ [nl]
      @ ''### C'' @ [nl] @ ''---'' @ [nl] @ ''bar'' @ [nl] @ ''## S'' @ [nl] @ ''### D''"
  have chunks: "markdown_chunks ?md
     = [Frame (Some ''B'') [''foo''], Frame (Some ''C'') [''bar''], Section ''S'']"
    by code_simp
  have h: "is_frame_line ''### A''" by code_simp
  have t: "h3_text ''### A'' = ''A''" by code_simp
  have r2: "\<forall>l \<in> set [''foo'', ''bar'']. is_regular l" by code_simp
  have r1: "\<forall>l \<in> set [''foo'']. is_regular l" by code_simp
  have r0: "\<forall>l \<in> set ([] :: string list). is_regular l" by simp
  have n: "is_section_line ''## S''" by code_simp
  have s: "is_separator ''---''" by code_simp
  have wf: "wf_walk (start_walk [])"
    using markdown_frames_emitted_once [of "[]" ?md] by blast
  have c0: "closing (start_walk []) = []" by code_simp
  have tail1: "walk_chunks (opened ''A'' []) [''## S''] = [Section ''S'']" by code_simp
  have tail2: "walk_chunks (start_walk []) [''bar''] = [Frame (Some []) [''bar'']]" by code_simp
  have a: "walk_markdown ''x'' ?md = ''x'' @ concat (map render_chunk (markdown_chunks ?md))"
    using markdown_frames_emitted_once [of "''x''" ?md] by blast
  have b: "walk_chunks (start_walk []) (''### A'' # [''foo'', ''bar''] @ ''## S'' # [])
     = closing (start_walk []) @ frame_if (h3_text ''### A'') [''foo'', ''bar'']
         @ walk_chunks (opened (h3_text ''### A'') []) (''## S'' # [])"
    using markdown_frames_emitted_once [of "[]" ?md "start_walk []" "[]" "''### A''"
        "[''foo'', ''bar'']" "''## S''" "[]"] wf h r2 n by blast
  have c: "walk_chunks (start_walk []) (''### A'' # [''foo''] @ ''---'' # [''bar''])
     = closing (start_walk []) @ (if [''foo''] = [] then walk_chunks (opened (h3_text ''### A'') []) [''bar'']
          else Frame (Some (h3_text ''### A'')) [''foo''] # walk_chunks (start_walk []) [''bar''])"
    using markdown_frames_emitted_once [of "[]" ?md "start_walk []" "[]" "''### A''"
        "[''foo'']" "''---''" "[''bar'']"] wf h r1 s by blast
  have d: "walk_chunks (start_walk []) (''### A'' # [])
     = closing (start_walk []) @ frame_if (h3_text ''### A'') []"
    using markdown_frames_emitted_once [of "[]" ?md "start_walk []" "[]" "''### A''"
        "[]" "''---''" "[]"] wf h r0 by blast
  have a': "walk_markdown ''x'' ?md = ''x'' @ convert_markdown_to_frame (Some ''B'') ''foo''
         @ convert_markdown_to_frame (Some ''C'') ''bar'' @ section_text ''S''"
    unfolding a chunks by simp
  have b': "walk_chunks (start_walk []) [''### A'', ''foo'', ''bar'', ''## S'']
     = [Frame (Some ''A'') [''foo'', ''bar''], Section ''S'']"
    using b unfolding t c0 tail1 frame_if_def by (simp del: walk_chunks.simps)
  have c': "walk_chunks (start_walk []) [''### A'', ''foo'', ''---'', ''bar'']
     = [Frame (Some ''A'') [''foo''], Frame (Some []) [''bar'']]"
    using c unfolding t c0 tail2 by (simp del: walk_chunks.simps)
  have d': "walk_chunks (start_walk []) [''### A''] = []"
    using d unfolding t c0 frame_if_def by (simp del: walk_chunks.simps)
  show ?thesis
    using chunks a' b' c' d' by blast
qed

section \<open>The escaping pass\<close>

lemma replace_single: "replace [c] [bs, c] s = rep1 c s"
proof (induction s)
  case Nil
  then show ?case by (simp add: replace.simps rep1_def)
next
  case (Cons x s)
  show ?case
    using Cons by (subst replace.simps) (auto simp: rep1_def)
qed

lemma rep1_append: "rep1 c (a @ b) = rep1 c a @ rep1 c b"
  by (simp add: rep1_def)

lemma rep1_concat: "rep1 c (concat xs) = concat (map (rep1 c) xs)"
  by (induction xs) (simp_all add: rep1_append, simp add: rep1_def)

lemma escape_special_rep1:
  "escape_special t =
     rep1 CHR ''}'' (rep1 CHR ''{'' (rep1 CHR ''_'' (rep1 CHR ''#'' (rep1 CHR ''$''
       (rep1 CHR ''%'' (rep1 CHR ''&'' t))))))"
  by (simp add: escape_special_def replace_all_def replacements_def replace_single)

lemma escape_one: 
  "rep1 CHR ''}'' (rep1 CHR ''{'' (rep1 CHR ''_'' (rep1 CHR ''#'' (rep1 CHR ''$''
       (rep1 CHR ''%'' (rep1 CHR ''&'' [c])))))) = escape_char c"
  by (simp add: rep1_def escape_char_def special_chars_def bs_def)

lemma escape_special_map: "escape_special t = concat (map escape_char t)"
proof (induction t)
  case Nil
  then show ?case by (simp add: escape_special_rep1 rep1_def)
next
  case (Cons c t)
  have "escape_special (c # t) = escape_special [c] @ escape_special t"
    using rep1_append [of _ "[c]" t] by (simp add: escape_special_rep1 rep1_append)
  then show ?case
    using Cons escape_one [of c] by (simp add: escape_special_rep1)
qed

lemma escaped_from_mono: "escaped_from S p s \<Longrightarrow> escaped_from S True s"
  by (cases s) auto

lemma escaped_from_append:
  "escaped_from S p (a @ b) \<longleftrightarrow>
     escaped_from S p a \<and> escaped_from S (if a = [] then p else last a = bs) b"
  by (induction a arbitrary: p) auto

lemma bs_not_special: "bs \<notin> set special_chars"
  by (simp add: bs_def special_chars_def)

lemma escaped_escape_char:
  "escaped_from special_chars p (escape_char c @ s) \<longleftrightarrow> escaped_from special_chars (c = bs) s"
  using bs_not_special by (auto simp: escape_char_def)

lemma escaped_concat_escape:
  "escaped_from special_chars p (concat (map escape_char t))"
proof (induction t arbitrary: p)
  case Nil
  then show ?case by simp
next
  case (Cons c t)
  then show ?case
    using escaped_escape_char [of p c "concat (map escape_char t)"] by simp
qed


lemma escape_special_plain:
  "set s \<inter> set special_chars = {} \<Longrightarrow> escape_special s = s"
proof (induction s)
  case Nil
  then show ?case by (simp add: escape_special_map)
next
  case (Cons c s)
  then show ?case by (simp add: escape_special_map escape_char_def)
qed



lemma escaped_from_False: "escaped_from S False s \<Longrightarrow> escaped_from S p s"
  by (cases s) auto

lemma escaped_from_free: "set x \<inter> set S = {} \<Longrightarrow> escaped_from S p x"
  by (induction x arbitrary: p) auto

lemma escaped_from_subset:
  "set S' \<subseteq> set S \<Longrightarrow> escaped_from S p s \<Longrightarrow> escaped_from S' p s"
  by (induction s arbitrary: p) auto

lemma startswith_append: "startswith old s \<Longrightarrow> s = old @ drop (length old) s"
  by (induction old s rule: startswith.induct) auto

lemma replace_keeps_escaped:
  assumes "old \<noteq> []" "set old \<inter> set S = {}" "bs \<notin> set old" "set new \<inter> set S = {}"
  shows "escaped_from S p s \<Longrightarrow> escaped_from S p (replace old new s)"
proof (induction s arbitrary: p rule: length_induct)
  case (1 s)
  show ?case
  proof (cases "s = []")
    case True
    then show ?thesis using assms(1) by (simp add: replace.simps)
  next
    case False
    show ?thesis
    proof (cases "startswith old s")
      case True
      define rest where "rest = drop (length old) s"
      have s: "s = old @ rest"
        using startswith_append [OF True] by (simp add: rest_def)
      have "last old \<noteq> bs"
        using assms(1,3) last_in_set by metis
      then have "escaped_from S False rest"
        using "1.prems" assms(1) by (simp add: s escaped_from_append)
      moreover have "length rest < length s"
        using assms(1) by (simp add: s)
      ultimately have "escaped_from S False (replace old new rest)"
        using "1.IH" by blast
      then have "escaped_from S q (replace old new rest)" for q
        by (rule escaped_from_False)
      moreover have "escaped_from S p new"
        using assms(4) by (rule escaped_from_free)
      moreover have "replace old new s = new @ replace old new rest"
        using True False assms(1) by (subst replace.simps) (simp add: rest_def)
      ultimately show ?thesis
        by (simp add: escaped_from_append)
    next
      case nomatch: False
      obtain c cs where s: "s = c # cs"
        using False by (cases s) auto
      have "escaped_from S (c = bs) (replace old new cs)"
        using "1.IH" "1.prems" by (simp add: s)
      moreover have "replace old new s = c # replace old new cs"
        using nomatch assms(1) by (subst replace.simps) (simp add: s)
      ultimately show ?thesis
        using "1.prems" by (simp add: s)
    qed
  qed
qed

lemma replace_all_keeps_escaped:
  "\<forall>(old, new) \<in> set table. old \<noteq> [] \<and> set old \<inter> set S = {} \<and> bs \<notin> set old
      \<and> set new \<inter> set S = {} \<Longrightarrow>
   escaped_from S p s \<Longrightarrow> escaped_from S p (replace_all table s)"
proof (induction table arbitrary: s)
  case Nil
  then show ?case by (simp add: replace_all_def)
next
  case (Cons e table)
  obtain old new where e: "e = (old, new)" by (cases e)
  have "escaped_from S p (replace old new s)"
    using Cons.prems e by (intro replace_keeps_escaped) auto
  then have "escaped_from S p (replace_all table (replace old new s))"
    using Cons.IH Cons.prems(1) by simp
  then show ?case
    by (simp add: replace_all_def e)
qed

lemma placeholders_safe:
  "\<forall>(old, new) \<in> set placeholders. old \<noteq> [] \<and> set old \<inter> set text_only_chars = {}
      \<and> bs \<notin> set old \<and> set new \<inter> set text_only_chars = {}"
  by (simp add: placeholders_def text_only_chars_def bs_def)

lemma expand_keeps_escaped:
  "escaped_from text_only_chars p s \<Longrightarrow> escaped_from text_only_chars p (expand_placeholders s)"
  unfolding expand_placeholders_def
  using placeholders_safe by (rule replace_all_keeps_escaped)

lemma bs_not_nl: "bs \<noteq> nl"
  by (simp add: bs_def nl_def)

lemma rmatch_header_none:
  "escaped_from ''#'' (p = Some bs) s \<Longrightarrow>
   rmatch (header_pat (CHR ''#'' # hs)) p s None [] = None"
  using bs_not_nl by (cases s) (auto simp: header_pat_def lits_def lit_def)

lemma sub_from_header_id:
  "escaped_from ''#'' (p = Some bs) s \<Longrightarrow>
   sub_from (header_pat (CHR ''#'' # hs)) tmpl p s = s"
proof (induction s arbitrary: p)
  case Nil
  then show ?case
    using rmatch_header_none [of p "[]" hs] by (subst sub_from.simps) simp
next
  case (Cons c s)
  have "escaped_from ''#'' (Some c = Some bs) s"
    using Cons.prems by simp
  then have "sub_from (header_pat (CHR ''#'' # hs)) tmpl (Some c) s = s"
    by (rule Cons.IH)
  then show ?case
    using rmatch_header_none [OF Cons.prems, of hs] by (subst sub_from.simps) simp
qed

lemma re_sub_header_id:
  "escaped_from ''#'' False s \<Longrightarrow> re_sub (header_pat (CHR ''#'' # hs)) tmpl s = s"
  using sub_from_header_id [of None s hs tmpl] by (simp add: re_sub_def)

lemma rescan_headers_id: "escaped_from ''#'' False s \<Longrightarrow> rescan_headers s = s"
  by (simp add: rescan_headers_def re_sub_header_id)

lemma hash_escaped:
  "escaped_from text_only_chars p s \<Longrightarrow> escaped_from ''#'' p s"
  using escaped_from_subset [of "''#''" text_only_chars p s]
  by (simp add: text_only_chars_def)

lemma rescan_after_escape:
  "rescan_headers (expand_placeholders (escape_special t)) = expand_placeholders (escape_special t)"
proof -
  have "escaped_from special_chars False (escape_special t)"
    by (simp add: escape_special_map escaped_concat_escape)
  then have "escaped_from text_only_chars False (escape_special t)"
    using escaped_from_subset [of text_only_chars special_chars False "escape_special t"]
    by (simp add: text_only_chars_def special_chars_def)
  then have "escaped_from text_only_chars False (expand_placeholders (escape_special t))"
    by (rule expand_keeps_escaped)
  then show ?thesis
    by (intro rescan_headers_id hash_escaped)
qed



















section \<open>The second pass over the headers\<close>

text \<open>
  Claim C2 says that a header line which reaches the second pass over the headers
  (lines 359 to 362) becomes a section, subsection or bold command. The hashes are
  escaped before that pass (line 340), so no line that it sees starts with a hash: the
  pass changes nothing, whatever the text, and the input \<^verbatim>\<open>### Foo\<close> gives three escaped
  hashes and no \<^verbatim>\<open>\subsection\<close> command.
\<close>

theorem h3_line_is_escaped_not_converted:
  "markdown_to_latex ''### Foo'' = Some ([bs] @ ''#'' @ [bs] @ ''#'' @ [bs] @ ''# Foo'') \<and>
   markdown_to_latex ''### Foo'' \<noteq> Some (bs # ''subsection{Foo}'') \<and>
   rescan_headers (expand_placeholders (escape_special t)) =
     expand_placeholders (escape_special t)"
proof -
  have "markdown_to_latex ''### Foo'' = Some ([bs] @ ''#'' @ [bs] @ ''#'' @ [bs] @ ''# Foo'')"
    by code_simp
  moreover have "markdown_to_latex ''### Foo'' \<noteq> Some (bs # ''subsection{Foo}'')"
    by code_simp
  ultimately show ?thesis
    using rescan_after_escape [of t] by blast
qed

section \<open>Plain text goes through unchanged, line by line\<close>

lemma rmatch_needs:
  "One P \<in> set items \<Longrightarrow> \<forall>c \<in> set s. \<not> P c \<Longrightarrow> rmatch items p s g gs = None"
  by (induction items p s g gs rule: rmatch.induct) auto

lemma sub_from_id:
  "One P \<in> set pat \<Longrightarrow> \<forall>c \<in> set s. \<not> P c \<Longrightarrow> sub_from pat tmpl p s = s"
proof (induction s arbitrary: p)
  case Nil
  then show ?case
    using rmatch_needs [of P pat "[]" p None "[]"] by (subst sub_from.simps) simp
next
  case (Cons c s)
  have "sub_from pat tmpl (Some c) s = s"
    using Cons by simp
  then show ?case
    using rmatch_needs [OF Cons.prems, of p None "[]"] by (subst sub_from.simps) simp
qed

lemma re_sub_id:
  "One (\<lambda>x. x = c) \<in> set pat \<Longrightarrow> c \<notin> set s \<Longrightarrow> re_sub pat tmpl s = s"
  using sub_from_id [of "\<lambda>x. x = c" pat s tmpl None] by (auto simp: re_sub_def)

lemma header_pat_needs_hash: "One (\<lambda>x. x = CHR ''#'') \<in> set (header_pat (CHR ''#'' # hs))"
  by (simp add: header_pat_def lits_def lit_def)

lemma convert_h5_h4_plain: "CHR ''#'' \<notin> set s \<Longrightarrow> convert_h5_h4 s = s"
  by (simp add: convert_h5_h4_def re_sub_id [OF header_pat_needs_hash])

lemma rescan_headers_plain: "CHR ''#'' \<notin> set s \<Longrightarrow> rescan_headers s = s"
  by (simp add: rescan_headers_def re_sub_id [OF header_pat_needs_hash])

lemma sub_from_no_match:
  "search_from pat p s = None \<Longrightarrow> sub_from pat tmpl p s = s"
proof (induction s arbitrary: p)
  case Nil
  then show ?case
    by (subst sub_from.simps) (simp split: option.splits)
next
  case (Cons c s)
  have m: "rmatch pat p (c # s) None [] = None"
    using Cons.prems by (simp split: option.splits)
  have "search_from pat (Some c) s = None"
    using Cons.prems by (simp split: option.splits)
  then have "sub_from pat tmpl (Some c) s = s"
    by (rule Cons.IH)
  then show ?case
    using m by (subst sub_from.simps) simp
qed

lemma re_sub_no_match: "re_search pat s = None \<Longrightarrow> re_sub pat tmpl s = s"
  by (simp add: re_search_def re_sub_def sub_from_no_match)

lemma convert_spans_no_match:
  "list_all (\<lambda>pat. re_search pat s = None) span_patterns \<Longrightarrow> convert_spans s = s"
  by (simp add: span_patterns_def convert_spans_def re_sub_no_match)

lemma replace_no_occurrence:
  "old \<noteq> [] \<Longrightarrow> \<not> occurs old s \<Longrightarrow> replace old new s = s"
proof (induction s)
  case Nil
  then show ?case by (simp add: replace.simps)
next
  case (Cons c s)
  have "replace old new s = s"
    using Cons by simp
  moreover have "\<not> startswith old (c # s)"
    using Cons.prems(2) by simp
  ultimately show ?case
    using Cons.prems(1) by (subst replace.simps) simp
qed

lemma replace_all_no_occurrence:
  "\<forall>e \<in> set table. fst e \<noteq> [] \<and> \<not> occurs (fst e) s \<Longrightarrow> replace_all table s = s"
proof (induction table)
  case Nil
  then show ?case by (simp add: replace_all_def)
next
  case (Cons e table)
  obtain old new where e: "e = (old, new)" by (cases e)
  have "replace old new s = s"
    using Cons.prems e by (intro replace_no_occurrence) auto
  moreover have "replace_all table s = s"
    using Cons by simp
  ultimately show ?case
    by (simp add: replace_all_def e)
qed

lemma placeholders_nonempty: "\<forall>e \<in> set placeholders. fst e \<noteq> []"
  by (simp add: placeholders_def)

lemma expand_placeholders_no_occurrence:
  "list_all (\<lambda>s. \<not> occurs s text) sentinels \<Longrightarrow> expand_placeholders text = text"
  unfolding expand_placeholders_def
  using placeholders_nonempty
  by (intro replace_all_no_occurrence) (auto simp: sentinels_def list_all_iff)

lemma list_step_plain:
  "\<not> is_list_item (strip l) \<Longrightarrow>
   list_step (acc, False) l = (if strip l \<noteq> [] then acc @ [l] else acc, False)"
  by (simp add: list_step_def Let_def)

lemma foldl_list_step_plain:
  "\<forall>l \<in> set ls. \<not> is_list_item (strip l) \<Longrightarrow>
   foldl list_step (acc, False) ls = (acc @ filter (\<lambda>l. strip l \<noteq> []) ls, False)"
  by (induction ls arbitrary: acc) (simp_all add: list_step_plain)

lemma convert_lists_plain:
  "\<forall>l \<in> set (split_on nl s). \<not> is_list_item (strip l) \<Longrightarrow>
   convert_lists s = join [nl] (filter (\<lambda>l. strip l \<noteq> []) (split_on nl s))"
  by (simp add: convert_lists_def foldl_list_step_plain)

lemma plain_translation:
  assumes "is_plain t" "strip t \<noteq> []"
  shows "markdown_to_latex t = Some (join [nl] (kept_lines t))"
proof -
  have chars: "\<forall>c \<in> set (strip t). c \<notin> set special_chars"
    using assms(1) by (simp add: is_plain_def no_markup_def list_all_iff)
  have hash: "CHR ''#'' \<in> set special_chars"
    by (simp add: special_chars_def)
  have no_hash: "CHR ''#'' \<notin> set (strip t)"
    using chars hash by blast
  have sp: "set (strip t) \<inter> set special_chars = {}"
    using chars by blast
  have spans: "list_all (\<lambda>pat. re_search pat (strip t) = None) span_patterns"
    using assms(1) by (simp add: is_plain_def no_markup_def)
  have items: "\<forall>l \<in> set (split_on nl (strip t)). \<not> is_list_item (strip l)"
    using assms(1) by (simp add: is_plain_def no_markup_def list_all_iff)
  have holders: "list_all (\<lambda>s. \<not> occurs s (strip t)) sentinels"
    using assms(1) by (simp add: is_plain_def no_placeholder_def)
  have 1: "convert_h5_h4 (strip t) = strip t"
    using no_hash by (rule convert_h5_h4_plain)
  have 2: "convert_spans (strip t) = strip t"
    using spans by (rule convert_spans_no_match)
  have 3: "escape_special (strip t) = strip t"
    using sp by (rule escape_special_plain)
  have 4: "expand_placeholders (strip t) = strip t"
    using holders by (rule expand_placeholders_no_occurrence)
  have 5: "rescan_headers (strip t) = strip t"
    using no_hash by (rule rescan_headers_plain)
  have 6: "convert_lists (strip t) = join [nl] (kept_lines t)"
    using items by (simp add: convert_lists_plain kept_lines_def)
  show ?thesis
    using assms(2) by (simp add: markdown_to_latex_def Let_def 1 2 3 4 5 6)
qed

text \<open>
  Claim C3 says that plain text comes out as it went in, with its blank lines and its
  leading and trailing whitespace. The translator strips the text (line 313) and leaves
  out the blank lines (line 385): two paragraphs lose the blank line between them, and
  \<^verbatim>\<open> a \<close> becomes \<^verbatim>\<open>a\<close>. Text without markup in which a placeholder of the translator
  is written out is changed as well: \<^verbatim>\<open>x<<<CODE>>>y\<close> becomes \<^verbatim>\<open>x\texttt{y\<close>.
\<close>

theorem plain_text_is_not_returned_unchanged:
  "markdown_to_latex (''a'' @ [nl, nl] @ ''b'') = Some (''a'' @ [nl] @ ''b'') \<and>
   markdown_to_latex (''a'' @ [nl, nl] @ ''b'') \<noteq> Some (''a'' @ [nl, nl] @ ''b'') \<and>
   is_plain (''a'' @ [nl, nl] @ ''b'') \<and>
   markdown_to_latex '' a '' = Some ''a'' \<and> is_plain '' a '' \<and>
   markdown_to_latex ''x<<<CODE>>>y'' = Some (''x'' @ bs # ''texttt{y'') \<and>
   no_markup ''x<<<CODE>>>y''"
  by code_simp

text \<open>
  Claim C3 as amended. Let the text have none of the characters \<^verbatim>\<open>& % $ # _ { }\<close>, no
  place where a span pattern (bold, italic, code, link) matches, no line that is a list
  item, and none of the thirteen placeholders written out in it; a single \<^verbatim>\<open>*\<close>, \<^verbatim>\<open>[\<close>
  or \<^verbatim>\<open><\<close> is allowed. When it is not blank, the output is the stripped text without its
  blank lines: the lines that are not blank, each as it is with the whitespace inside
  it and at its ends, joined by newlines. Blank text has no result.
\<close>

theorem plain_text_is_kept_line_by_line:
  "(is_plain t \<and> strip t \<noteq> [] \<longrightarrow> markdown_to_latex t = Some (join [nl] (kept_lines t))) \<and>
   (strip t = [] \<longrightarrow> markdown_to_latex t = None) \<and>
   kept_lines t = filter (\<lambda>l. strip l \<noteq> []) (split_on nl (strip t)) \<and>
   is_plain t = (no_markup t \<and> no_placeholder t)"
  using plain_translation [of t]
  by (simp add: markdown_to_latex_def kept_lines_def is_plain_def)

theorem plain_text_is_kept_line_by_line_witness:
  "markdown_to_latex (''  if a < b then 2 * 3'' @ [nl] @ ''   '' @ [nl] @ ''  see [1] - <<BOLD>>  ''
       @ [nl] @ ''third'' @ [nl, nl]) =
     Some (''if a < b then 2 * 3'' @ [nl] @ ''  see [1] - <<BOLD>>  '' @ [nl] @ ''third'') \<and>
   markdown_to_latex ('' '' @ [nl]) = None"
proof -
  let ?t = "''  if a < b then 2 * 3'' @ [nl] @ ''   '' @ [nl] @ ''  see [1] - <<BOLD>>  ''
       @ [nl] @ ''third'' @ [nl, nl]"
  have p: "is_plain ?t" by code_simp
  have s: "strip ?t \<noteq> []" by code_simp
  have k: "join [nl] (kept_lines ?t) =
      ''if a < b then 2 * 3'' @ [nl] @ ''  see [1] - <<BOLD>>  '' @ [nl] @ ''third''"
    by code_simp
  have e: "strip ('' '' @ [nl]) = []" by code_simp
  have a: "markdown_to_latex ?t = Some (join [nl] (kept_lines ?t))"
    using plain_text_is_kept_line_by_line [of ?t] p s by blast
  have b: "markdown_to_latex ('' '' @ [nl]) = None"
    using plain_text_is_kept_line_by_line [of "'' '' @ [nl]"] e by blast
  show ?thesis
    using a b by (simp only: k)
qed

end
